theory Spec2Isabelle
  imports Complex_Main "HOL-Library.Multiset"
begin

section \<open>The modules under verification\<close>

text \<open>
  The two modules under verification are
  \<^verbatim>\<open>backend/open_webui/utils/memory_manager.py\<close> (class \<^verbatim>\<open>MemoryManager\<close>) and
  \<^verbatim>\<open>backend/open_webui/routers/retrieval_monitor.py\<close> (class \<^verbatim>\<open>CloudResourceMonitor\<close>).
  Python integers are \<open>int\<close> (or \<open>nat\<close> for byte and thread counts, which the operating
  system reports as non-negative). A Python float is the real number it denotes, and every
  float operation rounds its exact result to the nearest binary64 value (section below).
\<close>

section \<open>Binary64 arithmetic\<close>

text \<open>
  Python's \<^verbatim>\<open>float\<close> is IEEE 754 binary64: 53 significant bits, results rounded to the
  nearest representable value, ties to the even significand. The model covers the normal
  range (no overflow to infinity, no subnormal results, no NaN), which holds every value
  the two modules compute from percentages, byte counts and thresholds.
\<close>

text \<open>\<^verbatim>\<open>int.bit_length\<close>: the number of binary digits of \<open>n\<close>.\<close>

fun bit_length :: "nat \<Rightarrow> nat" where
  "bit_length n = (if n = 0 then 0 else Suc (bit_length (n div 2)))"

declare bit_length.simps [simp del]

definition pow2 :: "int \<Rightarrow> real" where
  "pow2 e = (if 0 \<le> e then 2 ^ nat e else 1 / 2 ^ nat (- e))"

definition round_half_even :: "real \<Rightarrow> int" where
  "round_half_even y =
     (let f = \<lfloor>y\<rfloor>; d = y - of_int f
      in if d < 1 / 2 then f else if 1 / 2 < d then f + 1 else if even f then f else f + 1)"

text \<open>The exponent \<open>e\<close> with \<open>2 ^ e \<le> |x| < 2 ^ (e + 1)\<close>, for \<open>x \<noteq> 0\<close>.\<close>

definition binade :: "real \<Rightarrow> int" where
  "binade x =
     (if 1 \<le> \<bar>x\<bar> then int (bit_length (nat \<lfloor>\<bar>x\<bar>\<rfloor>)) - 1
      else - int (bit_length (nat (\<lceil>1 / \<bar>x\<bar>\<rceil> - 1))))"

text \<open>
  Rounding to binary64: the multiple of \<open>2 ^ (e - 52)\<close> nearest to \<open>x\<close>. A decimal literal
  of the source, such as \<^verbatim>\<open>0.70\<close>, denotes \<open>double (70 / 100)\<close>.
\<close>

definition double :: "real \<Rightarrow> real" where
  "double x =
     (if x = 0 then 0
      else let u = pow2 (binade x - 52) in of_int (round_half_even (x / u)) * u)"

text \<open>
  Float subtraction, multiplication and division (by a non-zero divisor; the one division
  whose divisor can be zero is guarded where it is used). Dividing two Python integers with
  \<^verbatim>\<open>/\<close> gives the correctly rounded quotient as well.
\<close>

definition fsub :: "real \<Rightarrow> real \<Rightarrow> real" where
  "fsub x y = double (x - y)"

definition fmul :: "real \<Rightarrow> real \<Rightarrow> real" where
  "fmul x y = double (x * y)"

definition fdiv :: "real \<Rightarrow> real \<Rightarrow> real" where
  "fdiv x y = double (x / y)"

section \<open>Python values, errors and the event trace\<close>

datatype pyval = PNone | PStr string | PInt int | PFloat real

text \<open>Python truthiness, as used by \<^verbatim>\<open>if collection_name:\<close> and \<^verbatim>\<open>if file_path:\<close>.\<close>

fun truthy :: "pyval \<Rightarrow> bool" where
  "truthy PNone = False"
| "truthy (PStr s) = (s \<noteq> [])"
| "truthy (PInt i) = (i \<noteq> 0)"
| "truthy (PFloat x) = (x \<noteq> 0)"

type_synonym pydict = "string \<rightharpoonup> pyval"

text \<open>\<^verbatim>\<open>d.get(k)\<close>: the value, or \<^verbatim>\<open>None\<close> when the key is missing.\<close>

definition dict_get :: "pydict \<Rightarrow> string \<Rightarrow> pyval" where
  "dict_get d k = (case d k of None \<Rightarrow> PNone | Some v \<Rightarrow> v)"

text \<open>
  Every exception below is a subclass of Python's \<^verbatim>\<open>Exception\<close>, so each
  \<^verbatim>\<open>except Exception\<close> handler of the source catches all of them.
\<close>

datatype error = KeyError string | ZeroDivisionError | ExternalError string

type_synonym 'a result = "error + 'a"

datatype log_level = DEBUG | INFO | WARNING | ERROR

text \<open>
  What \<^verbatim>\<open>psutil.virtual_memory()\<close> returns (the fields the source reads): the byte counts
  are integers, \<open>vm_percent\<close> is a float between 0 and 100.
\<close>

record svmem =
  vm_total :: nat
  vm_percent :: real
  vm_cached :: nat
  vm_buffers :: nat

text \<open>A row of the file catalog (the attributes of \<^verbatim>\<open>Files.get_files()\<close> entries the source reads).\<close>

record file_model =
  file_id :: string
  filename :: string
  created_at :: int
  path :: pyval
  meta :: pydict

text \<open>The result object of \<^verbatim>\<open>VECTOR_DB_CLIENT.get\<close>: \<^verbatim>\<open>documents\<close> is a list of batches.\<close>

record get_result =
  documents :: "string list list option"

text \<open>
  Every call to an external collaborator is recorded together with its outcome
  (\<open>Inl\<close>: the call raised; \<open>Inr\<close>: the call returned).
\<close>

datatype event =
    VirtualMemory "svmem result"
  | GetFiles "file_model list result"
  | DeleteFileById pyval "pyval result"
  | HasCollection pyval "bool result"
  | VdbDelete pyval pyval "unit result"
  | VdbGet pyval "get_result option result"
  | DeleteCollection pyval "unit result"
  | StorageDeleteFile pyval "unit result"
  | GcCollect "unit result"
  | OsSystem string "unit result"
  | ProcessNew "nat result"
  | MemoryInfo nat "nat result"
  | ActiveCount "nat result"
  | TimeTime "real result"
  | Sleep nat
  | Log log_level

record 'w state =
  world :: 'w
  trace :: "event list"

text \<open>
  The external collaborators, over an arbitrary world \<open>'w\<close>: \<^verbatim>\<open>psutil\<close>, the catalog
  \<^verbatim>\<open>Files\<close>, \<^verbatim>\<open>VECTOR_DB_CLIENT\<close>, \<^verbatim>\<open>Storage\<close>, \<^verbatim>\<open>gc\<close> and \<^verbatim>\<open>os\<close>. Each operation
  may raise or return, and may change the world.
\<close>

record 'w collaborators =
  virtual_memory :: "'w \<Rightarrow> svmem result \<times> 'w"
  get_files :: "'w \<Rightarrow> file_model list result \<times> 'w"
  delete_file_by_id :: "pyval \<Rightarrow> 'w \<Rightarrow> pyval result \<times> 'w"
  has_collection :: "pyval \<Rightarrow> 'w \<Rightarrow> bool result \<times> 'w"
  vdb_delete :: "pyval \<Rightarrow> pyval \<Rightarrow> 'w \<Rightarrow> unit result \<times> 'w"
  vdb_get :: "pyval \<Rightarrow> 'w \<Rightarrow> get_result option result \<times> 'w"
  delete_collection :: "pyval \<Rightarrow> 'w \<Rightarrow> unit result \<times> 'w"
  storage_delete_file :: "pyval \<Rightarrow> 'w \<Rightarrow> unit result \<times> 'w"
  gc_collect :: "'w \<Rightarrow> unit result \<times> 'w"
  os_system :: "string \<Rightarrow> 'w \<Rightarrow> unit result \<times> 'w"

definition call :: "('a result \<Rightarrow> event) \<Rightarrow> ('w \<Rightarrow> 'a result \<times> 'w) \<Rightarrow> 'w state \<Rightarrow> 'a result \<times> 'w state" where
  "call ev op s = (case op (world s) of (r, w') \<Rightarrow> (r, \<lparr>world = w', trace = trace s @ [ev r]\<rparr>))"

definition logging :: "log_level \<Rightarrow> 'w state \<Rightarrow> 'w state" where
  "logging l s = s\<lparr>trace := trace s @ [Log l]\<rparr>"

definition sleep :: "nat \<Rightarrow> 'w state \<Rightarrow> 'w state" where
  "sleep n s = s\<lparr>trace := trace s @ [Sleep n]\<rparr>"

text \<open>The events a computation added to the trace.\<close>

definition events_since :: "'w state \<Rightarrow> 'w state \<Rightarrow> event list" where
  "events_since s s' = drop (length (trace s)) (trace s')"

section \<open>MemoryManager\<close>

record memory_manager =
  memory_threshold :: real

subsection \<open>Pressure readings\<close>

text \<open>\<^verbatim>\<open>return psutil.virtual_memory().percent / 100.0 *100\<close>\<close>

definition get_memory_usage :: "'w collaborators \<Rightarrow> 'w state \<Rightarrow> real result \<times> 'w state" where
  "get_memory_usage C s =
     (case call VirtualMemory (virtual_memory C) s of
        (Inl e, s1) \<Rightarrow> (Inl e, s1)
      | (Inr vm, s1) \<Rightarrow> (Inr (fmul (fdiv (vm_percent vm) 100) 100), s1))"

text \<open>\<^verbatim>\<open>(memory_info.cached + memory_info.buffers) / memory_info.total\<close>; a zero divisor raises.\<close>

definition get_cache_usage :: "'w collaborators \<Rightarrow> 'w state \<Rightarrow> real result \<times> 'w state" where
  "get_cache_usage C s =
     (case call VirtualMemory (virtual_memory C) s of
        (Inl e, s1) \<Rightarrow> (Inl e, s1)
      | (Inr memory_info, s1) \<Rightarrow>
          if vm_total memory_info = 0 then (Inl ZeroDivisionError, s1)
          else (Inr (fdiv (real (vm_cached memory_info + vm_buffers memory_info))
                          (real (vm_total memory_info))), s1))"

subsection \<open>Selecting the oldest files\<close>

text \<open>The slice \<^verbatim>\<open>xs[:stop]\<close>: a negative \<^verbatim>\<open>stop\<close> counts from the end, and both ends are clamped.\<close>

definition py_slice_to :: "'a list \<Rightarrow> int \<Rightarrow> 'a list" where
  "py_slice_to xs stop =
     (let n = int (length xs);
          k = (if stop < 0 then max 0 (stop + n) else min stop n)
      in take (nat k) xs)"

text \<open>The dictionary built for each selected file.\<close>

definition file_dict :: "file_model \<Rightarrow> pydict" where
  "file_dict file =
     [''id'' \<mapsto> PStr (file_id file),
      ''filename'' \<mapsto> PStr (filename file),
      ''created_at'' \<mapsto> PInt (created_at file),
      ''path'' \<mapsto> path file,
      ''collection_name'' \<mapsto> dict_get (meta file) ''collection_name'']"

text \<open>
  \<^verbatim>\<open>sorted(files, key=lambda x: x.created_at)\<close> is a stable sort, as \<open>sort_key\<close> is.
  The whole body is inside \<^verbatim>\<open>try ... except Exception\<close>, which logs and returns \<^verbatim>\<open>[]\<close>.
\<close>

definition get_oldest_files :: "'w collaborators \<Rightarrow> int \<Rightarrow> 'w state \<Rightarrow> pydict list \<times> 'w state" where
  "get_oldest_files C limit s =
     (case call GetFiles (get_files C) s of
        (Inl e, s1) \<Rightarrow> ([], logging ERROR s1)
      | (Inr files, s1) \<Rightarrow>
          if files = [] then ([], s1)
          else
            let sorted_files = sort_key created_at files
            in (map file_dict (py_slice_to sorted_files limit), s1))"

subsection \<open>The cascade for one file\<close>

text \<open>
  The emptiness test of the source:
  \<^verbatim>\<open>not result or not result.documents or not result.documents[0]\<close>.
\<close>

definition no_documents :: "get_result option \<Rightarrow> bool" where
  "no_documents result =
     (case result of
        None \<Rightarrow> True
      | Some r \<Rightarrow>
          (case documents r of
             None \<Rightarrow> True
           | Some [] \<Rightarrow> True
           | Some (d # ds) \<Rightarrow> d = []))"

text \<open>
  Step 1, the body of \<^verbatim>\<open>if collection_name:\<close>. One \<^verbatim>\<open>try\<close> block holds the existence
  check, the document deletion, the membership query and the collection deletion; its
  handler logs the error.
\<close>

definition remove_vectors :: "'w collaborators \<Rightarrow> pyval \<Rightarrow> pyval \<Rightarrow> 'w state \<Rightarrow> 'w state" where
  "remove_vectors C collection_name fid s =
     (case call (HasCollection collection_name) (has_collection C collection_name) s of
        (Inl e, s1) \<Rightarrow> logging ERROR s1
      | (Inr False, s1) \<Rightarrow> s1
      | (Inr True, s1) \<Rightarrow>
          (case call (VdbDelete collection_name fid) (vdb_delete C collection_name fid) s1 of
             (Inl e, s2) \<Rightarrow> logging ERROR s2
           | (Inr u, s2) \<Rightarrow>
               (case call (VdbGet collection_name) (vdb_get C collection_name) (logging INFO s2) of
                  (Inl e, s3) \<Rightarrow> logging ERROR s3
                | (Inr result, s3) \<Rightarrow>
                    if no_documents result then
                      (case call (DeleteCollection collection_name)
                                 (delete_collection C collection_name) s3 of
                         (Inl e, s4) \<Rightarrow> logging ERROR s4
                       | (Inr u', s4) \<Rightarrow> logging INFO s4)
                    else s3)))"

text \<open>Step 2, the body of \<^verbatim>\<open>if file_path:\<close>, with its own handler.\<close>

definition remove_physical_file :: "'w collaborators \<Rightarrow> pyval \<Rightarrow> 'w state \<Rightarrow> 'w state" where
  "remove_physical_file C file_path s =
     (case call (StorageDeleteFile file_path) (storage_delete_file C file_path) s of
        (Inl e, s1) \<Rightarrow> logging ERROR s1
      | (Inr u, s1) \<Rightarrow> logging INFO s1)"

text \<open>
  The outer \<^verbatim>\<open>try\<close> catches the \<^verbatim>\<open>KeyError\<close> of \<^verbatim>\<open>file_record["id"]\<close> and of
  \<^verbatim>\<open>file_record['filename']\<close> (read for the first log line) and whatever
  \<^verbatim>\<open>Files.delete_file_by_id\<close> raises; the value that call returns is dropped.
\<close>

definition cleanup_file_and_vectors :: "'w collaborators \<Rightarrow> pydict \<Rightarrow> 'w state \<Rightarrow> bool \<times> 'w state" where
  "cleanup_file_and_vectors C file_record s =
     (case file_record ''id'' of
        None \<Rightarrow> (False, logging ERROR s)
      | Some fid \<Rightarrow>
          let collection_name = dict_get file_record ''collection_name'';
              file_path = dict_get file_record ''path''
          in (case file_record ''filename'' of
                None \<Rightarrow> (False, logging ERROR s)
              | Some name \<Rightarrow>
                  let s1 = logging INFO s;
                      s2 = (if truthy collection_name
                            then remove_vectors C collection_name fid s1 else s1);
                      s3 = (if truthy file_path
                            then remove_physical_file C file_path s2 else s2)
                  in (case call (DeleteFileById fid) (delete_file_by_id C fid) s3 of
                        (Inl e, s4) \<Rightarrow> (False, logging ERROR s4)
                      | (Inr v, s4) \<Rightarrow> (True, logging INFO s4))))"

subsection \<open>The cleanup pass\<close>

text \<open>\<^verbatim>\<open>gc.collect()\<close>, then \<^verbatim>\<open>os.system("sync")\<close> in a handler of its own.\<close>

definition cleanup_cache_memory :: "'w collaborators \<Rightarrow> 'w state \<Rightarrow> 'w state" where
  "cleanup_cache_memory C s =
     (case call GcCollect (gc_collect C) s of
        (Inl e, s1) \<Rightarrow> logging ERROR s1
      | (Inr u, s1) \<Rightarrow>
          (case call (OsSystem ''sync'') (os_system C ''sync'') s1 of
             (Inl e, s2) \<Rightarrow> logging DEBUG s2
           | (Inr u', s2) \<Rightarrow> logging INFO s2))"

record cleanup_stats =
  cleaned_files :: int
  memory_before :: real
  memory_after :: real
  cache_before :: real
  cache_after :: real
  freed_memory :: real

text \<open>
  The \<^verbatim>\<open>for file_record in oldest_files\<close> loop. Both log lines read
  \<^verbatim>\<open>file_record['filename']\<close> outside any handler.
\<close>

fun cleanup_loop :: "'w collaborators \<Rightarrow> pydict list \<Rightarrow> int \<Rightarrow> 'w state \<Rightarrow> int result \<times> 'w state" where
  "cleanup_loop C [] cleaned s = (Inr cleaned, s)"
| "cleanup_loop C (file_record # rest) cleaned s =
     (case cleanup_file_and_vectors C file_record s of
        (True, s1) \<Rightarrow>
          (case file_record ''filename'' of
             None \<Rightarrow> (Inl (KeyError ''filename''), s1)
           | Some name \<Rightarrow> cleanup_loop C rest (cleaned + 1) (logging INFO s1))
      | (False, s1) \<Rightarrow>
          (case file_record ''filename'' of
             None \<Rightarrow> (Inl (KeyError ''filename''), s1)
           | Some name \<Rightarrow> cleanup_loop C rest cleaned (logging ERROR s1)))"

definition perform_memory_cleanup :: "'w collaborators \<Rightarrow> int \<Rightarrow> 'w state \<Rightarrow> cleanup_stats result \<times> 'w state" where
  "perform_memory_cleanup C cleanup_count s =
     (case get_memory_usage C s of
        (Inl e, s1) \<Rightarrow> (Inl e, s1)
      | (Inr start_memory, s1) \<Rightarrow>
     (case get_cache_usage C s1 of
        (Inl e, s2) \<Rightarrow> (Inl e, s2)
      | (Inr start_cache, s2) \<Rightarrow>
     (case get_oldest_files C cleanup_count (logging INFO s2) of
        (oldest_files, s3) \<Rightarrow>
          if oldest_files = [] then
            (Inr \<lparr>cleaned_files = 0, memory_before = start_memory, memory_after = start_memory,
                  cache_before = start_cache, cache_after = start_cache, freed_memory = 0\<rparr>,
             logging WARNING s3)
          else
     (case cleanup_loop C oldest_files 0 s3 of
        (Inl e, s4) \<Rightarrow> (Inl e, s4)
      | (Inr cleaned, s4) \<Rightarrow>
     (case get_memory_usage C (sleep 2 (cleanup_cache_memory C s4)) of
        (Inl e, s5) \<Rightarrow> (Inl e, s5)
      | (Inr end_memory, s5) \<Rightarrow>
     (case get_cache_usage C s5 of
        (Inl e, s6) \<Rightarrow> (Inl e, s6)
      | (Inr end_cache, s6) \<Rightarrow>
          (Inr \<lparr>cleaned_files = cleaned, memory_before = start_memory, memory_after = end_memory,
                cache_before = start_cache, cache_after = end_cache,
                freed_memory = fsub start_memory end_memory\<rparr>,
           logging INFO (logging INFO (logging INFO s6)))))))))"

subsection \<open>The entry point\<close>

text \<open>Python's \<^verbatim>\<open>int(x)\<close> on a float truncates towards zero.\<close>

definition py_int :: "real \<Rightarrow> int" where
  "py_int x = (if 0 \<le> x then \<lfloor>x\<rfloor> else \<lceil>x\<rceil>)"

definition check_and_cleanup_memory ::
    "memory_manager \<Rightarrow> 'w collaborators \<Rightarrow> 'w state \<Rightarrow> cleanup_stats option result \<times> 'w state" where
  "check_and_cleanup_memory self C s =
     (case get_memory_usage C s of
        (Inl e, s1) \<Rightarrow> (Inl e, s1)
      | (Inr current_memory, s1) \<Rightarrow>
     (case get_cache_usage C s1 of
        (Inl e, s2) \<Rightarrow> (Inl e, s2)
      | (Inr current_cache, s2) \<Rightarrow>
          if current_memory > memory_threshold self \<or> current_cache > memory_threshold self then
            let excess_memory = max (fsub current_memory (memory_threshold self))
                                    (fsub current_cache (memory_threshold self));
                cleanup_count = max 1 (py_int (fmul excess_memory 20))
            in (case perform_memory_cleanup C cleanup_count (logging WARNING (logging DEBUG s2)) of
                  (Inl e, s3) \<Rightarrow> (Inl e, s3)
                | (Inr report, s3) \<Rightarrow> (Inr (Some report), s3))
          else (Inr None, logging DEBUG s2)))"

section \<open>CloudResourceMonitor\<close>

record monitor =
  monitoring :: bool
  stats :: pydict

text \<open>
  What the sampling loop calls: \<^verbatim>\<open>psutil.Process()\<close> (returning a handle, here the
  process id), \<^verbatim>\<open>process.memory_info().rss\<close>, \<^verbatim>\<open>threading.active_count()\<close> and
  \<^verbatim>\<open>time.time()\<close>.
\<close>

record 'w sampler_env =
  psutil_Process :: "'w \<Rightarrow> nat result \<times> 'w"
  memory_info_rss :: "nat \<Rightarrow> 'w \<Rightarrow> nat result \<times> 'w"
  active_count :: "'w \<Rightarrow> nat result \<times> 'w"
  time_time :: "'w \<Rightarrow> real result \<times> 'w"

text \<open>The handler of the loop body: \<^verbatim>\<open>log.error(...)\<close>, then \<^verbatim>\<open>time.sleep(60)\<close>.\<close>

definition monitor_except :: "'w state \<Rightarrow> 'w state" where
  "monitor_except s = sleep 60 (logging ERROR s)"

text \<open>One pass through the body of \<^verbatim>\<open>while self.monitoring:\<close>.\<close>

definition monitor_cycle :: "'w sampler_env \<Rightarrow> monitor \<times> 'w state \<Rightarrow> monitor \<times> 'w state" where
  "monitor_cycle E ms =
     (case ms of (self, s) \<Rightarrow>
     (case call ProcessNew (psutil_Process E) s of
        (Inl e, s1) \<Rightarrow> (self, monitor_except s1)
      | (Inr process, s1) \<Rightarrow>
     (case call (MemoryInfo process) (memory_info_rss E process) s1 of
        (Inl e, s2) \<Rightarrow> (self, monitor_except s2)
      | (Inr rss, s2) \<Rightarrow>
     (case call ActiveCount (active_count E) s2 of
        (Inl e, s3) \<Rightarrow> (self, monitor_except s3)
      | (Inr thread_count, s3) \<Rightarrow>
          let memory_mb = fdiv (fdiv (real rss) 1024) 1024;
              s4 = (if memory_mb > 1000 then logging WARNING s3 else s3);
              s5 = (if thread_count > 15 then logging WARNING s4 else s4)
          in (case call TimeTime (time_time E) s5 of
                (Inl e, s6) \<Rightarrow> (self, monitor_except s6)
              | (Inr now, s6) \<Rightarrow>
                  (self\<lparr>stats := [''memory_mb'' \<mapsto> PFloat memory_mb,
                                  ''thread_count'' \<mapsto> PInt (int thread_count),
                                  ''timestamp'' \<mapsto> PFloat now]\<rparr>,
                   sleep 30 s6))))))"

text \<open>
  The loop runs for as long as the flag is set; only \<^verbatim>\<open>stop_monitoring\<close>, called from
  another thread, clears it. The first argument bounds the number of passes observed.
\<close>

fun monitor_loop :: "nat \<Rightarrow> 'w sampler_env \<Rightarrow> monitor \<times> 'w state \<Rightarrow> monitor \<times> 'w state" where
  "monitor_loop 0 E ms = ms"
| "monitor_loop (Suc n) E ms =
     (if monitoring (fst ms) then monitor_loop n E (monitor_cycle E ms) else ms)"

definition stop_monitoring :: "monitor \<Rightarrow> monitor" where
  "stop_monitoring self = self\<lparr>monitoring := False\<rparr>"

text \<open>A measurement call of the sampler that raised.\<close>

fun failed_measurement :: "event \<Rightarrow> bool" where
  "failed_measurement (ProcessNew (Inl e)) = True"
| "failed_measurement (MemoryInfo p (Inl e)) = True"
| "failed_measurement (ActiveCount (Inl e)) = True"
| "failed_measurement (TimeTime (Inl e)) = True"
| "failed_measurement ev = False"

section \<open>Reading the trace\<close>

text \<open>The outcomes of the catalog deletions in a trace, in order.\<close>

fun catalog_deletes :: "event list \<Rightarrow> pyval result list" where
  "catalog_deletes [] = []"
| "catalog_deletes (DeleteFileById i r # evs) = r # catalog_deletes evs"
| "catalog_deletes (ev # evs) = catalog_deletes evs"

text \<open>The calls that delete from one of the three stores.\<close>

fun is_delete_call :: "event \<Rightarrow> bool" where
  "is_delete_call (DeleteFileById i r) = True"
| "is_delete_call (VdbDelete c i r) = True"
| "is_delete_call (DeleteCollection c r) = True"
| "is_delete_call (StorageDeleteFile p r) = True"
| "is_delete_call ev = False"

fun is_collection_query :: "event \<Rightarrow> bool" where
  "is_collection_query (VdbGet c r) = True"
| "is_collection_query (DeleteCollection c r) = True"
| "is_collection_query ev = False"

fun is_storage_delete :: "event \<Rightarrow> bool" where
  "is_storage_delete (StorageDeleteFile p r) = True"
| "is_storage_delete ev = False"

text \<open>
  Every collection deletion in the trace comes directly after a membership query of the
  same collection that returned and passed the emptiness test. The first argument is the
  event before the list.
\<close>

fun deletes_confirmed :: "event option \<Rightarrow> event list \<Rightarrow> bool" where
  "deletes_confirmed prev [] = True"
| "deletes_confirmed prev (DeleteCollection c r # evs) =
     ((case prev of
         Some (VdbGet c' (Inr result)) \<Rightarrow> c' = c \<and> no_documents result
       | _ \<Rightarrow> False)
      \<and> deletes_confirmed (Some (DeleteCollection c r)) evs)"
| "deletes_confirmed prev (ev # evs) = deletes_confirmed (Some ev) evs"

section \<open>Concrete collaborators\<close>

text \<open>
  Collaborators over a world with no state, each answering with a fixed outcome; single
  operations are replaced by record update where a failure is wanted.
\<close>

definition reading :: "real \<Rightarrow> nat \<Rightarrow> svmem" where
  "reading p c = \<lparr>vm_total = 100, vm_percent = p, vm_cached = c, vm_buffers = 0\<rparr>"

definition fixed_stores :: "svmem \<Rightarrow> file_model list \<Rightarrow> get_result option \<Rightarrow> unit collaborators" where
  "fixed_stores vm files remaining =
     \<lparr>virtual_memory = (\<lambda>w. (Inr vm, w)),
      get_files = (\<lambda>w. (Inr files, w)),
      delete_file_by_id = (\<lambda>i w. (Inr PNone, w)),
      has_collection = (\<lambda>c w. (Inr True, w)),
      vdb_delete = (\<lambda>c i w. (Inr (), w)),
      vdb_get = (\<lambda>c w. (Inr remaining, w)),
      delete_collection = (\<lambda>c w. (Inr (), w)),
      storage_delete_file = (\<lambda>p w. (Inr (), w)),
      gc_collect = (\<lambda>w. (Inr (), w)),
      os_system = (\<lambda>cmd w. (Inr (), w))\<rparr>"

definition raising :: "'w \<Rightarrow> 'a result \<times> 'w" where
  "raising w = (Inl (ExternalError ''unavailable''), w)"

definition file_at :: "string \<Rightarrow> int \<Rightarrow> file_model" where
  "file_at name t =
     \<lparr>file_id = name, filename = name @ ''.txt'', created_at = t,
      path = PStr (''/data/'' @ name), meta = [''collection_name'' \<mapsto> PStr (''file-'' @ name)]\<rparr>"

definition start :: "unit state" where
  "start = \<lparr>world = (), trace = []\<rparr>"

definition fixed_sampler :: "nat \<Rightarrow> nat \<Rightarrow> unit sampler_env" where
  "fixed_sampler rss threads =
     \<lparr>psutil_Process = (\<lambda>w. (Inr 1, w)),
      memory_info_rss = (\<lambda>p w. (Inr rss, w)),
      active_count = (\<lambda>w. (Inr threads, w)),
      time_time = (\<lambda>w. (Inr 0, w))\<rparr>"

text \<open>Five catalog rows, created in the order A, B, C, D, E.\<close>

definition five_files :: "file_model list" where
  "five_files = [file_at ''D'' 4, file_at ''A'' 1, file_at ''E'' 5, file_at ''C'' 3, file_at ''B'' 2]"

section \<open>Basic facts\<close>

lemma fst_call: "fst (call ev op s) = fst (op (world s))"
  by (simp add: call_def split: prod.splits)

lemma world_call: "world (snd (call ev op s)) = snd (op (world s))"
  by (simp add: call_def split: prod.splits)

lemma trace_call: "trace (snd (call ev op s)) = trace s @ [ev (fst (op (world s)))]"
  by (simp add: call_def split: prod.splits)

lemma call_eq: "op (world s) = (r, w) \<Longrightarrow> call ev op s = (r, \<lparr>world = w, trace = trace s @ [ev r]\<rparr>)"
  by (simp add: call_def)

section \<open>Selecting the oldest files: properties\<close>

lemma get_oldest_files_result:
  "fst (get_oldest_files C limit s) =
     (case fst (get_files C (world s)) of
        Inl e \<Rightarrow> []
      | Inr files \<Rightarrow> map file_dict (py_slice_to (sort_key created_at files) limit))"
  by (simp add: get_oldest_files_def call_def py_slice_to_def Let_def split: prod.splits sum.splits)

lemma oldest_prefix:
  assumes "sel = take k (sort_key created_at files)" "rest = drop k (sort_key created_at files)"
  shows "mset (sel @ rest) = mset files \<and> sorted (map created_at sel)
       \<and> (\<forall>x\<in>set sel. \<forall>y\<in>set rest. created_at x \<le> created_at y)
       \<and> length sel = min k (length files)"
proof -
  have s: "sorted (map created_at (sel @ rest))" using assms by (simp add: sorted_sort_key del: map_append)
  have "sel @ rest = sort_key created_at files" using assms by simp
  then have m: "mset (sel @ rest) = mset files" by (metis mset_sort)
  from s have "sorted (map created_at sel)" "\<forall>x\<in>set sel. \<forall>y\<in>set rest. created_at x \<le> created_at y"
    by (auto simp: sorted_append)
  moreover have "length sel = min k (length files)" using assms by (simp add: min.commute)
  ultimately show ?thesis using m by blast
qed

text \<open>
  Claim C5, amended. For every catalog state and every limit \<open>n \<ge> 0\<close>,
  \<^verbatim>\<open>get_oldest_files\<close> never raises and returns the dictionaries of a selection \<open>sel\<close>
  of the catalog's files that is sorted ascending by \<open>created_at\<close>, holds
  \<open>min n (number of files)\<close> files, and is no newer than any file left out; so a catalog
  with fewer than \<open>n\<close> files is returned whole, and the result is empty when the catalog
  is empty or reading it fails.
\<close>

theorem get_oldest_files_nonneg_limit:
  assumes "0 \<le> n"
  shows "case fst (get_files C (world s)) of
           Inl e \<Rightarrow> fst (get_oldest_files C n s) = []
         | Inr files \<Rightarrow>
             (\<exists>sel rest. fst (get_oldest_files C n s) = map file_dict sel
                \<and> mset (sel @ rest) = mset files
                \<and> sorted (map created_at sel)
                \<and> (\<forall>x\<in>set sel. \<forall>y\<in>set rest. created_at x \<le> created_at y)
                \<and> length sel = min (nat n) (length files))"
proof (cases "fst (get_files C (world s))")
  case (Inl e)
  then show ?thesis by (simp add: get_oldest_files_result)
next
  case (Inr files)
  let ?k = "nat n"
  have sl: "py_slice_to (sort_key created_at files) n = take ?k (sort_key created_at files)"
    using assms by (simp add: py_slice_to_def Let_def min_def)
  have res: "fst (get_oldest_files C n s) = map file_dict (take ?k (sort_key created_at files))"
    using Inr sl by (simp add: get_oldest_files_result)
  from oldest_prefix[OF refl refl, of ?k files] res
  have "\<exists>sel rest. fst (get_oldest_files C n s) = map file_dict sel
                \<and> mset (sel @ rest) = mset files
                \<and> sorted (map created_at sel)
                \<and> (\<forall>x\<in>set sel. \<forall>y\<in>set rest. created_at x \<le> created_at y)
                \<and> length sel = min (nat n) (length files)"
    by blast
  then show ?thesis using Inr by simp
qed

theorem get_oldest_files_nonneg_limit_witness:
  "(0::int) \<le> 2 \<and>
   (\<exists>sel rest.
      fst (get_oldest_files (fixed_stores (reading 50 10)
             [file_at ''c'' 3, file_at ''a'' 1, file_at ''b'' 2] None) 2 start) = map file_dict sel
      \<and> mset (sel @ rest) = mset [file_at ''c'' 3, file_at ''a'' 1, file_at ''b'' 2]
      \<and> sorted (map created_at sel)
      \<and> (\<forall>x\<in>set sel. \<forall>y\<in>set rest. created_at x \<le> created_at y)
      \<and> length sel = 2)"
proof -
  let ?files = "[file_at ''c'' 3, file_at ''a'' 1, file_at ''b'' 2]"
  let ?C = "fixed_stores (reading 50 10) ?files None"
  have g: "fst (get_files ?C w) = Inr ?files" for w
    by (simp add: fixed_stores_def)
  show ?thesis
    using get_oldest_files_nonneg_limit [of 2 ?C start] by (simp add: g numeral_2_eq_2)
qed

text \<open>
  The claim as written fails twice: with limit \<open>-1\<close> and three files, two files are
  returned, which is more than the limit; and with limit \<open>10\<close> and a single file, fewer
  than the limit, the result is not empty.
\<close>

theorem get_oldest_files_limit_counterexample:
  "\<not> int (length (fst (get_oldest_files (fixed_stores (reading 50 10)
        [file_at ''c'' 3, file_at ''a'' 1, file_at ''b'' 2] None) (- 1) start))) \<le> - 1
   \<and> (1::int) < 10
   \<and> fst (get_oldest_files (fixed_stores (reading 50 10) [file_at ''a'' 1] None) 10 start) \<noteq> []"
  by (simp add: get_oldest_files_result fixed_stores_def start_def py_slice_to_def)

text \<open>
  Claim C10. For a non-positive limit, \<^verbatim>\<open>get_oldest_files\<close> returns (without raising)
  the empty list when the limit is \<open>0\<close>, and when the limit is negative the sorted files
  without the \<open>|limit|\<close> newest ones (all of them dropped when there are no more than
  \<open>|limit|\<close>).
\<close>

theorem get_oldest_files_nonpositive_limit:
  assumes "limit \<le> 0" and "fst (get_files C (world s)) = Inr files"
  shows "(limit = 0 \<longrightarrow> fst (get_oldest_files C limit s) = [])
       \<and> (limit < 0 \<longrightarrow>
            (\<exists>sel newest. fst (get_oldest_files C limit s) = map file_dict sel
               \<and> sort_key created_at files = sel @ newest
               \<and> length newest = min (nat (- limit)) (length files)))"
proof (intro conjI impI)
  assume "limit = 0"
  then show "fst (get_oldest_files C limit s) = []"
    using assms(2) by (simp add: get_oldest_files_result py_slice_to_def)
next
  assume neg: "limit < 0"
  let ?xs = "sort_key created_at files"
  let ?k = "nat (max 0 (limit + int (length ?xs)))"
  have res: "fst (get_oldest_files C limit s) = map file_dict (take ?k ?xs)"
    using neg assms(2) by (simp add: get_oldest_files_result py_slice_to_def Let_def)
  have len: "length (drop ?k ?xs) = min (nat (- limit)) (length files)"
    using neg by (simp add: min_def max_def) linarith
  have "?xs = take ?k ?xs @ drop ?k ?xs" by simp
  with res len show "\<exists>sel newest. fst (get_oldest_files C limit s) = map file_dict sel
               \<and> sort_key created_at files = sel @ newest
               \<and> length newest = min (nat (- limit)) (length files)"
    by blast
qed

theorem get_oldest_files_nonpositive_limit_witness:
  "fst (get_oldest_files (fixed_stores (reading 50 10)
          [file_at ''c'' 3, file_at ''a'' 1, file_at ''b'' 2] None) 0 start) = []
   \<and> (\<exists>sel newest.
        fst (get_oldest_files (fixed_stores (reading 50 10)
          [file_at ''c'' 3, file_at ''a'' 1, file_at ''b'' 2] None) (- 1) start) = map file_dict sel
        \<and> sort_key created_at [file_at ''c'' 3, file_at ''a'' 1, file_at ''b'' 2] = sel @ newest
        \<and> length newest = 1)"
proof -
  let ?files = "[file_at ''c'' 3, file_at ''a'' 1, file_at ''b'' 2]"
  let ?C = "fixed_stores (reading 50 10) ?files None"
  have g: "fst (get_files ?C w) = Inr ?files" for w
    by (simp add: fixed_stores_def)
  show ?thesis
    using get_oldest_files_nonpositive_limit [OF _ g, of 0]
          get_oldest_files_nonpositive_limit [OF _ g, of "- 1"]
    by simp
qed

section \<open>The cascade for one file: properties\<close>

lemma deletes_confirmed_append:
  "deletes_confirmed p (xs @ ys) =
     (deletes_confirmed p xs \<and> deletes_confirmed (if xs = [] then p else Some (last xs)) ys)"
proof (induction xs arbitrary: p)
  case Nil
  then show ?case by simp
next
  case (Cons x xs)
  show ?case by (cases x) (simp_all add: Cons.IH)
qed

lemma catalog_deletes_append: "catalog_deletes (xs @ ys) = catalog_deletes xs @ catalog_deletes ys"
proof (induction xs)
  case Nil
  then show ?case by simp
next
  case (Cons x xs)
  then show ?case by (cases x) simp_all
qed

text \<open>What step 1 adds to the trace.\<close>

lemma remove_vectors_events:
  "\<exists>evs. trace (remove_vectors C c i s) = trace s @ evs
         \<and> catalog_deletes evs = []
         \<and> filter is_storage_delete evs = []
         \<and> (\<forall>p. deletes_confirmed p evs)
         \<and> (\<forall>e. VdbDelete c i (Inl e) \<in> set evs \<longrightarrow> filter is_collection_query evs = [])
         \<and> (\<forall>c' result. VdbGet c' (Inr result) \<in> set evs \<and> \<not> no_documents result
               \<longrightarrow> (\<forall>c'' r. DeleteCollection c'' r \<notin> set evs))"
  by (simp add: remove_vectors_def call_def logging_def split: prod.splits sum.splits bool.splits)

text \<open>What step 2 adds to the trace.\<close>

lemma remove_physical_file_events:
  "\<exists>r l. trace (remove_physical_file C p s) = trace s @ [StorageDeleteFile p r, Log l]"
  by (simp add: remove_physical_file_def call_def logging_def split: prod.splits sum.splits)

text \<open>
  The shape of one cascade on a record that has the keys \<^verbatim>\<open>id\<close> and \<^verbatim>\<open>filename\<close>: the
  first log line, the events of step 1, the events of step 2, the catalog deletion and a
  last log line.
\<close>

lemma cleanup_file_and_vectors_events:
  assumes "file_record ''id'' = Some fid" and "file_record ''filename'' = Some name"
  shows "\<exists>vec blob r l.
           events_since s (snd (cleanup_file_and_vectors C file_record s))
             = Log INFO # vec @ blob @ [DeleteFileById fid r, Log l]
         \<and> fst (cleanup_file_and_vectors C file_record s) = (\<not> isl r)
         \<and> catalog_deletes vec = [] \<and> filter is_storage_delete vec = []
         \<and> (\<forall>p. deletes_confirmed p vec)
         \<and> (\<forall>e. VdbDelete (dict_get file_record ''collection_name'') fid (Inl e) \<in> set vec
               \<longrightarrow> filter is_collection_query vec = [])
         \<and> (\<forall>c' result. VdbGet c' (Inr result) \<in> set vec \<and> \<not> no_documents result
               \<longrightarrow> (\<forall>c'' r. DeleteCollection c'' r \<notin> set vec))
         \<and> (if truthy (dict_get file_record ''path'')
             then \<exists>r' l'. blob = [StorageDeleteFile (dict_get file_record ''path'') r', Log l']
             else blob = [])"
proof -
  let ?c = "dict_get file_record ''collection_name''"
  let ?p = "dict_get file_record ''path''"
  let ?s1 = "logging INFO s"
  let ?s2 = "if truthy ?c then remove_vectors C ?c fid ?s1 else ?s1"
  let ?s3 = "if truthy ?p then remove_physical_file C ?p ?s2 else ?s2"
  have t1: "trace ?s1 = trace s @ [Log INFO]" by (simp add: logging_def)
  obtain vec where vec: "trace ?s2 = trace ?s1 @ vec" "catalog_deletes vec = []"
      "filter is_storage_delete vec = []" "\<forall>p. deletes_confirmed p vec"
      "\<forall>e. VdbDelete ?c fid (Inl e) \<in> set vec \<longrightarrow> filter is_collection_query vec = []"
      "\<forall>c' result. VdbGet c' (Inr result) \<in> set vec \<and> \<not> no_documents result
         \<longrightarrow> (\<forall>c'' r. DeleteCollection c'' r \<notin> set vec)"
  proof (cases "truthy ?c")
    case True
    from remove_vectors_events[of C ?c fid ?s1] obtain evs where
      "trace (remove_vectors C ?c fid ?s1) = trace ?s1 @ evs" "catalog_deletes evs = []"
      "filter is_storage_delete evs = []" "\<forall>p. deletes_confirmed p evs"
      "\<forall>e. VdbDelete ?c fid (Inl e) \<in> set evs \<longrightarrow> filter is_collection_query evs = []"
      "\<forall>c' result. VdbGet c' (Inr result) \<in> set evs \<and> \<not> no_documents result
         \<longrightarrow> (\<forall>c'' r. DeleteCollection c'' r \<notin> set evs)"
      by blast
    with True that[of evs] show ?thesis by simp
  next
    case False
    with that[of "[]"] show ?thesis by simp
  qed
  obtain blob where blob: "trace ?s3 = trace ?s2 @ blob"
      "if truthy ?p then \<exists>r' l'. blob = [StorageDeleteFile ?p r', Log l'] else blob = []"
  proof (cases "truthy ?p")
    case True
    from remove_physical_file_events[of C ?p ?s2] obtain r' l' where
      "trace (remove_physical_file C ?p ?s2) = trace ?s2 @ [StorageDeleteFile ?p r', Log l']"
      by blast
    with True that[of "[StorageDeleteFile ?p r', Log l']"] show ?thesis by simp
  next
    case False
    with that[of "[]"] show ?thesis by simp
  qed
  have t3: "trace ?s3 = trace s @ Log INFO # vec @ blob"
    using t1 vec(1) blob(1) by simp
  obtain r w where op: "delete_file_by_id C fid (world ?s3) = (r, w)"
    by (cases "delete_file_by_id C fid (world ?s3)")
  have body: "cleanup_file_and_vectors C file_record s =
     (case call (DeleteFileById fid) (delete_file_by_id C fid) ?s3 of
        (Inl e, s4) \<Rightarrow> (False, logging ERROR s4)
      | (Inr v, s4) \<Rightarrow> (True, logging INFO s4))"
    using assms by (simp add: cleanup_file_and_vectors_def Let_def)
  have fin: "\<exists>l. events_since s (snd (cleanup_file_and_vectors C file_record s))
               = Log INFO # vec @ blob @ [DeleteFileById fid r, Log l]
             \<and> fst (cleanup_file_and_vectors C file_record s) = (\<not> isl r)"
    unfolding body call_eq[where op = "delete_file_by_id C fid" and s = ?s3, OF op]
    by (cases r) (simp_all add: logging_def events_since_def t3)
  with vec blob show ?thesis by blast
qed

text \<open>A record without one of the two keys: the \<^verbatim>\<open>KeyError\<close> is logged, nothing else happens.\<close>

lemma cleanup_file_and_vectors_no_key:
  assumes "file_record ''id'' = None \<or> file_record ''filename'' = None"
  shows "events_since s (snd (cleanup_file_and_vectors C file_record s)) = [Log ERROR]"
    and "fst (cleanup_file_and_vectors C file_record s) = False"
  using assms
  by (auto simp: cleanup_file_and_vectors_def Let_def logging_def events_since_def split: option.splits)

text \<open>Every record that \<^verbatim>\<open>get_oldest_files\<close> builds has both keys.\<close>

lemma file_dict_keys:
  "file_dict f ''id'' = Some (PStr (file_id f))" "file_dict f ''filename'' = Some (PStr (filename f))"
  by (simp_all add: file_dict_def)

lemma cleanup_trace_extends:
  "\<exists>evs. trace (snd (cleanup_file_and_vectors C file_record s)) = trace s @ evs"
proof (cases "file_record ''id'' = None \<or> file_record ''filename'' = None")
  case True
  then show ?thesis
    by (auto simp: cleanup_file_and_vectors_def Let_def logging_def split: option.splits)
next
  case False
  then obtain fid name where k: "file_record ''id'' = Some fid" "file_record ''filename'' = Some name"
    by auto
  let ?c = "dict_get file_record ''collection_name''"
  let ?p = "dict_get file_record ''path''"
  let ?s1 = "logging INFO s"
  let ?s2 = "if truthy ?c then remove_vectors C ?c fid ?s1 else ?s1"
  let ?s3 = "if truthy ?p then remove_physical_file C ?p ?s2 else ?s2"
  have "\<exists>a. trace ?s2 = trace ?s1 @ a"
    using remove_vectors_events[of C ?c fid ?s1] by (cases "truthy ?c") auto
  moreover have "\<exists>b. trace ?s3 = trace ?s2 @ b"
    using remove_physical_file_events[of C ?p ?s2] by (cases "truthy ?p") auto
  ultimately obtain ab where t3: "trace ?s3 = trace s @ ab"
    by (auto simp: logging_def)
  have body: "cleanup_file_and_vectors C file_record s =
     (case call (DeleteFileById fid) (delete_file_by_id C fid) ?s3 of
        (Inl e, s4) \<Rightarrow> (False, logging ERROR s4)
      | (Inr v, s4) \<Rightarrow> (True, logging INFO s4))"
    using k by (simp add: cleanup_file_and_vectors_def Let_def)
  show ?thesis unfolding body
    by (simp add: call_def logging_def t3 split: prod.splits sum.splits)
qed

text \<open>
  Claim C2. For every record that has the keys \<^verbatim>\<open>id\<close> and \<^verbatim>\<open>filename\<close> (as every record
  built by \<^verbatim>\<open>get_oldest_files\<close> has), and whatever the vector index and the blob store do,
  \<^verbatim>\<open>cleanup_file_and_vectors\<close> calls \<^verbatim>\<open>Files.delete_file_by_id\<close> with the record's id
  exactly once, and it returns \<^verbatim>\<open>False\<close> if and only if that call raised.
\<close>

theorem cleanup_reports_catalog_delete:
  assumes "file_record ''id'' = Some fid" and "file_record ''filename'' = Some name"
  shows "\<exists>r. catalog_deletes (events_since s (snd (cleanup_file_and_vectors C file_record s))) = [r]
            \<and> DeleteFileById fid r \<in> set (events_since s (snd (cleanup_file_and_vectors C file_record s)))
            \<and> (fst (cleanup_file_and_vectors C file_record s) = False \<longleftrightarrow> isl r)"
proof -
  from cleanup_file_and_vectors_events[OF assms, of s C] obtain vec blob r l where
    ev: "events_since s (snd (cleanup_file_and_vectors C file_record s))
             = Log INFO # vec @ blob @ [DeleteFileById fid r, Log l]"
    and res: "fst (cleanup_file_and_vectors C file_record s) = (\<not> isl r)"
    and vec: "catalog_deletes vec = []"
    and blob: "if truthy (dict_get file_record ''path'')
             then \<exists>r' l'. blob = [StorageDeleteFile (dict_get file_record ''path'') r', Log l']
             else blob = []"
    by blast
  have "catalog_deletes blob = []" using blob by (auto split: if_splits)
  then have "catalog_deletes (events_since s (snd (cleanup_file_and_vectors C file_record s))) = [r]"
    unfolding ev using vec by (simp add: catalog_deletes_append)
  moreover have "DeleteFileById fid r \<in> set (events_since s (snd (cleanup_file_and_vectors C file_record s)))"
    unfolding ev by simp
  ultimately show ?thesis using res by blast
qed

text \<open>Concrete runs of one cascade, used below.\<close>

lemmas cascade_run =
  cleanup_file_and_vectors_def remove_vectors_def remove_physical_file_def
  call_def logging_def events_since_def file_dict_def dict_get_def no_documents_def
  fixed_stores_def file_at_def start_def raising_def

lemma run_stores_fail:
  "events_since start (snd (cleanup_file_and_vectors
      ((fixed_stores (reading 85 60) [] None)
         \<lparr>has_collection := (\<lambda>c. raising), storage_delete_file := (\<lambda>p. raising)\<rparr>)
      (file_dict (file_at ''A'' 1)) start))
   = [Log INFO, HasCollection (PStr ''file-A'') (Inl (ExternalError ''unavailable'')), Log ERROR,
      StorageDeleteFile (PStr ''/data/A'') (Inl (ExternalError ''unavailable'')), Log ERROR,
      DeleteFileById (PStr ''A'') (Inr PNone), Log INFO]"
  by (simp add: cascade_run Let_def)

lemma run_catalog_fails:
  "events_since start (snd (cleanup_file_and_vectors
      ((fixed_stores (reading 85 60) [] None) \<lparr>delete_file_by_id := (\<lambda>i. raising)\<rparr>)
      (file_dict (file_at ''A'' 1)) start))
   = [Log INFO, HasCollection (PStr ''file-A'') (Inr True),
      VdbDelete (PStr ''file-A'') (PStr ''A'') (Inr ()), Log INFO,
      VdbGet (PStr ''file-A'') (Inr None),
      DeleteCollection (PStr ''file-A'') (Inr ()), Log INFO,
      StorageDeleteFile (PStr ''/data/A'') (Inr ()), Log INFO,
      DeleteFileById (PStr ''A'') (Inl (ExternalError ''unavailable'')), Log ERROR]"
  by (simp add: cascade_run Let_def)

lemma run_documents_left:
  "events_since start (snd (cleanup_file_and_vectors
      (fixed_stores (reading 85 60) [] (Some \<lparr>documents = Some [[''chunk of B'']]\<rparr>))
      (file_dict (file_at ''A'' 1)) start))
   = [Log INFO, HasCollection (PStr ''file-A'') (Inr True),
      VdbDelete (PStr ''file-A'') (PStr ''A'') (Inr ()), Log INFO,
      VdbGet (PStr ''file-A'') (Inr (Some \<lparr>documents = Some [[''chunk of B'']]\<rparr>)),
      StorageDeleteFile (PStr ''/data/A'') (Inr ()), Log INFO,
      DeleteFileById (PStr ''A'') (Inr PNone), Log INFO]"
  by (simp add: cascade_run Let_def)

lemma run_collection_empty:
  "events_since start (snd (cleanup_file_and_vectors
      (fixed_stores (reading 85 60) [] (Some \<lparr>documents = Some [[]]\<rparr>))
      (file_dict (file_at ''A'' 1)) start))
   = [Log INFO, HasCollection (PStr ''file-A'') (Inr True),
      VdbDelete (PStr ''file-A'') (PStr ''A'') (Inr ()), Log INFO,
      VdbGet (PStr ''file-A'') (Inr (Some \<lparr>documents = Some [[]]\<rparr>)),
      DeleteCollection (PStr ''file-A'') (Inr ()), Log INFO,
      StorageDeleteFile (PStr ''/data/A'') (Inr ()), Log INFO,
      DeleteFileById (PStr ''A'') (Inr PNone), Log INFO]"
  by (simp add: cascade_run Let_def)

lemma run_vector_delete_raises:
  "events_since start (snd (cleanup_file_and_vectors
      ((fixed_stores (reading 85 60) [] None) \<lparr>vdb_delete := (\<lambda>c i. raising)\<rparr>)
      (file_dict (file_at ''A'' 1)) start))
   = [Log INFO, HasCollection (PStr ''file-A'') (Inr True),
      VdbDelete (PStr ''file-A'') (PStr ''A'') (Inl (ExternalError ''unavailable'')), Log ERROR,
      StorageDeleteFile (PStr ''/data/A'') (Inr ()), Log INFO,
      DeleteFileById (PStr ''A'') (Inr PNone), Log INFO]"
  by (simp add: cascade_run Let_def)

theorem cleanup_reports_catalog_delete_witness:
  "catalog_deletes (events_since start (snd (cleanup_file_and_vectors
      ((fixed_stores (reading 85 60) [] None)
         \<lparr>has_collection := (\<lambda>c. raising), storage_delete_file := (\<lambda>p. raising)\<rparr>)
      (file_dict (file_at ''A'' 1)) start))) = [Inr PNone]
   \<and> fst (cleanup_file_and_vectors
      ((fixed_stores (reading 85 60) [] None)
         \<lparr>has_collection := (\<lambda>c. raising), storage_delete_file := (\<lambda>p. raising)\<rparr>)
      (file_dict (file_at ''A'' 1)) start) = True
   \<and> catalog_deletes (events_since start (snd (cleanup_file_and_vectors
      ((fixed_stores (reading 85 60) [] None) \<lparr>delete_file_by_id := (\<lambda>i. raising)\<rparr>)
      (file_dict (file_at ''A'' 1)) start))) = [Inl (ExternalError ''unavailable'')]
   \<and> fst (cleanup_file_and_vectors
      ((fixed_stores (reading 85 60) [] None) \<lparr>delete_file_by_id := (\<lambda>i. raising)\<rparr>)
      (file_dict (file_at ''A'' 1)) start) = False"
  using cleanup_reports_catalog_delete [where file_record = "file_dict (file_at ''A'' 1)"
          and s = start and C = "(fixed_stores (reading 85 60) [] None)
             \<lparr>has_collection := (\<lambda>c. raising), storage_delete_file := (\<lambda>p. raising)\<rparr>",
          OF file_dict_keys]
        cleanup_reports_catalog_delete [where file_record = "file_dict (file_at ''A'' 1)"
          and s = start
          and C = "(fixed_stores (reading 85 60) [] None) \<lparr>delete_file_by_id := (\<lambda>i. raising)\<rparr>",
          OF file_dict_keys]
  unfolding run_stores_fail run_catalog_fails
  by auto

text \<open>The emptiness test decides every collection deletion of a cascade.\<close>

lemma cleanup_deletes_confirmed:
  "deletes_confirmed None (events_since s (snd (cleanup_file_and_vectors C file_record s)))"
proof (cases "file_record ''id'' = None \<or> file_record ''filename'' = None")
  case True
  then show ?thesis by (simp add: cleanup_file_and_vectors_no_key(1))
next
  case False
  then obtain fid name where k: "file_record ''id'' = Some fid" "file_record ''filename'' = Some name"
    by auto
  from cleanup_file_and_vectors_events[OF k, of s C] obtain vec blob r l where
    ev: "events_since s (snd (cleanup_file_and_vectors C file_record s))
             = Log INFO # vec @ blob @ [DeleteFileById fid r, Log l]"
    and vec: "\<forall>p. deletes_confirmed p vec"
    and blob: "if truthy (dict_get file_record ''path'')
             then \<exists>r' l'. blob = [StorageDeleteFile (dict_get file_record ''path'') r', Log l']
             else blob = []"
    by blast
  have "deletes_confirmed q (blob @ [DeleteFileById fid r, Log l])" for q
    using blob by (auto split: if_splits)
  then show ?thesis unfolding ev using vec by (simp add: deletes_confirmed_append)
qed

lemma deletes_confirmed_preceded:
  assumes "deletes_confirmed None evs" and "evs = pre @ DeleteCollection c r # post"
  shows "\<exists>pre' result. pre = pre' @ [VdbGet c (Inr result)] \<and> no_documents result"
proof -
  let ?q = "if pre = [] then None else Some (last pre)"
  from assms have d: "deletes_confirmed ?q (DeleteCollection c r # post)"
    by (simp add: deletes_confirmed_append)
  then have ne: "pre \<noteq> []" by (auto split: if_splits)
  with d obtain result where "last pre = VdbGet c (Inr result)" "no_documents result"
    by (auto split: event.splits sum.splits)
  with ne have "pre = butlast pre @ [VdbGet c (Inr result)] \<and> no_documents result"
    by (metis append_butlast_last_id)
  then show ?thesis by blast
qed

text \<open>Each collection deletion follows a query that passed the emptiness test.\<close>

lemma collection_deletes_pass_test:
  "(\<forall>pre c r post.
      events_since s (snd (cleanup_file_and_vectors C file_record s)) = pre @ DeleteCollection c r # post
      \<longrightarrow> (\<exists>pre' result. pre = pre' @ [VdbGet c (Inr result)] \<and> no_documents result))
   \<and> (\<forall>c result.
        VdbGet c (Inr result) \<in> set (events_since s (snd (cleanup_file_and_vectors C file_record s)))
        \<and> \<not> no_documents result
        \<longrightarrow> (\<forall>c' r. DeleteCollection c' r
                \<notin> set (events_since s (snd (cleanup_file_and_vectors C file_record s)))))"
proof (intro conjI allI impI)
  fix pre c r post
  assume "events_since s (snd (cleanup_file_and_vectors C file_record s)) = pre @ DeleteCollection c r # post"
  with cleanup_deletes_confirmed[of s C file_record]
  show "\<exists>pre' result. pre = pre' @ [VdbGet c (Inr result)] \<and> no_documents result"
    by (rule deletes_confirmed_preceded)
next
  fix c result c' r
  assume a: "VdbGet c (Inr result) \<in> set (events_since s (snd (cleanup_file_and_vectors C file_record s)))
        \<and> \<not> no_documents result"
  show "DeleteCollection c' r \<notin> set (events_since s (snd (cleanup_file_and_vectors C file_record s)))"
  proof (cases "file_record ''id'' = None \<or> file_record ''filename'' = None")
    case True
    then show ?thesis by (simp add: cleanup_file_and_vectors_no_key(1))
  next
    case False
    then obtain fid name where k: "file_record ''id'' = Some fid" "file_record ''filename'' = Some name"
      by auto
    from cleanup_file_and_vectors_events[OF k, of s C] obtain vec blob r' l where
      ev: "events_since s (snd (cleanup_file_and_vectors C file_record s))
             = Log INFO # vec @ blob @ [DeleteFileById fid r', Log l]"
      and vec: "\<forall>c' result. VdbGet c' (Inr result) \<in> set vec \<and> \<not> no_documents result
               \<longrightarrow> (\<forall>c'' r. DeleteCollection c'' r \<notin> set vec)"
      and blob: "if truthy (dict_get file_record ''path'')
             then \<exists>r' l'. blob = [StorageDeleteFile (dict_get file_record ''path'') r', Log l']
             else blob = []"
      by blast
    from a blob have "VdbGet c (Inr result) \<in> set vec"
      unfolding ev by (auto split: if_splits)
    with a vec have "DeleteCollection c' r \<notin> set vec" by blast
    with blob show ?thesis unfolding ev by (auto split: if_splits)
  qed
qed

lemma no_documents_iff:
  "no_documents result \<longleftrightarrow>
     (\<forall>g d ds. result = Some g \<and> documents g = Some (d # ds) \<longrightarrow> d = [])"
  by (auto simp: no_documents_def split: option.splits list.splits)

text \<open>
  Claim C6. In every cascade, each call of \<^verbatim>\<open>delete_collection\<close> comes directly after a
  membership query of the same collection that returned a result holding no document (no
  result object, no document list, or an empty first batch, the batch that a query of one
  collection fills); and once a membership query has returned a result whose first batch
  holds documents, no collection deletion is attempted in that cascade.
\<close>

theorem collection_deleted_only_when_empty:
  "(\<forall>pre c r post.
      events_since s (snd (cleanup_file_and_vectors C file_record s)) = pre @ DeleteCollection c r # post
      \<longrightarrow> (\<exists>pre' result. pre = pre' @ [VdbGet c (Inr result)]
             \<and> (\<forall>g d ds. result = Some g \<and> documents g = Some (d # ds) \<longrightarrow> d = [])))
   \<and> (\<forall>c g d ds.
        VdbGet c (Inr (Some g)) \<in> set (events_since s (snd (cleanup_file_and_vectors C file_record s)))
        \<and> documents g = Some (d # ds) \<and> d \<noteq> []
        \<longrightarrow> (\<forall>c' r. DeleteCollection c' r
                \<notin> set (events_since s (snd (cleanup_file_and_vectors C file_record s)))))"
proof -
  note t = collection_deletes_pass_test [of s C file_record]
  have a: "\<forall>pre c r post.
      events_since s (snd (cleanup_file_and_vectors C file_record s)) = pre @ DeleteCollection c r # post
      \<longrightarrow> (\<exists>pre' result. pre = pre' @ [VdbGet c (Inr result)]
             \<and> (\<forall>g d ds. result = Some g \<and> documents g = Some (d # ds) \<longrightarrow> d = []))"
    using t unfolding no_documents_iff by blast
  have b: "\<forall>c g d ds.
        VdbGet c (Inr (Some g)) \<in> set (events_since s (snd (cleanup_file_and_vectors C file_record s)))
        \<and> documents g = Some (d # ds) \<and> d \<noteq> []
        \<longrightarrow> (\<forall>c' r. DeleteCollection c' r
                \<notin> set (events_since s (snd (cleanup_file_and_vectors C file_record s))))"
  proof (intro allI impI)
    fix c g d ds c' r
    assume h: "VdbGet c (Inr (Some g)) \<in> set (events_since s (snd (cleanup_file_and_vectors C file_record s)))
        \<and> documents g = Some (d # ds) \<and> d \<noteq> []"
    then have "\<not> no_documents (Some g)" by (simp add: no_documents_def)
    with h t show "DeleteCollection c' r
                \<notin> set (events_since s (snd (cleanup_file_and_vectors C file_record s)))"
      by blast
  qed
  from a b show ?thesis by blast
qed

theorem collection_deleted_only_when_empty_witness:
  "(\<exists>pre' result.
      [Log INFO, HasCollection (PStr ''file-A'') (Inr True),
       VdbDelete (PStr ''file-A'') (PStr ''A'') (Inr ()), Log INFO,
       VdbGet (PStr ''file-A'') (Inr (Some \<lparr>documents = Some [[]]\<rparr>))]
        = pre' @ [VdbGet (PStr ''file-A'') (Inr result)]
      \<and> (\<forall>g d ds. result = Some g \<and> documents g = Some (d # ds) \<longrightarrow> d = []))
   \<and> (\<forall>c' r. DeleteCollection c' r \<notin> set (events_since start (snd (cleanup_file_and_vectors
        (fixed_stores (reading 85 60) [] (Some \<lparr>documents = Some [[''chunk of B'']]\<rparr>))
        (file_dict (file_at ''A'' 1)) start))))"
proof -
  let ?pre = "[Log INFO, HasCollection (PStr ''file-A'') (Inr True),
       VdbDelete (PStr ''file-A'') (PStr ''A'') (Inr ()), Log INFO,
       VdbGet (PStr ''file-A'') (Inr (Some \<lparr>documents = Some [[]]\<rparr>))]"
  let ?post = "[Log INFO, StorageDeleteFile (PStr ''/data/A'') (Inr ()), Log INFO,
       DeleteFileById (PStr ''A'') (Inr PNone), Log INFO]"
  let ?g = "\<lparr>documents = Some [[''chunk of B'']]\<rparr>"
  have e1: "events_since start (snd (cleanup_file_and_vectors
      (fixed_stores (reading 85 60) [] (Some \<lparr>documents = Some [[]]\<rparr>))
      (file_dict (file_at ''A'' 1)) start))
     = ?pre @ DeleteCollection (PStr ''file-A'') (Inr ()) # ?post"
    by (simp add: run_collection_empty)
  have e2: "VdbGet (PStr ''file-A'') (Inr (Some ?g))
       \<in> set (events_since start (snd (cleanup_file_and_vectors
        (fixed_stores (reading 85 60) [] (Some ?g)) (file_dict (file_at ''A'' 1)) start)))
       \<and> documents ?g = Some ([''chunk of B''] # []) \<and> [''chunk of B''] \<noteq> []"
    by (simp add: run_documents_left)
  from collection_deleted_only_when_empty [of start
         "fixed_stores (reading 85 60) [] (Some \<lparr>documents = Some [[]]\<rparr>)" "file_dict (file_at ''A'' 1)"] e1
  have "\<exists>pre' result. ?pre = pre' @ [VdbGet (PStr ''file-A'') (Inr result)]
          \<and> (\<forall>g d ds. result = Some g \<and> documents g = Some (d # ds) \<longrightarrow> d = [])"
    by blast
  moreover from collection_deleted_only_when_empty [of start
         "fixed_stores (reading 85 60) [] (Some ?g)" "file_dict (file_at ''A'' 1)"] e2
  have "\<forall>c' r. DeleteCollection c' r \<notin> set (events_since start (snd (cleanup_file_and_vectors
        (fixed_stores (reading 85 60) [] (Some ?g)) (file_dict (file_at ''A'' 1)) start)))"
    by blast
  ultimately show ?thesis by blast
qed

text \<open>
  Claim C9. For every record (with its two mandatory keys) whose vector-document deletion
  call raised, the cascade made no membership query and no collection deletion; the blob
  deletion was still attempted when the record has a path, and so was the catalog
  deletion.
\<close>

theorem vector_delete_failure_skips_collection_steps:
  assumes "file_record ''id'' = Some fid" and "file_record ''filename'' = Some name"
    and "VdbDelete (dict_get file_record ''collection_name'') fid (Inl e)
           \<in> set (events_since s (snd (cleanup_file_and_vectors C file_record s)))"
  shows "filter is_collection_query (events_since s (snd (cleanup_file_and_vectors C file_record s))) = []
       \<and> (truthy (dict_get file_record ''path'') \<longrightarrow>
            (\<exists>r. StorageDeleteFile (dict_get file_record ''path'') r
                   \<in> set (events_since s (snd (cleanup_file_and_vectors C file_record s)))))
       \<and> (\<exists>r. DeleteFileById fid r
                 \<in> set (events_since s (snd (cleanup_file_and_vectors C file_record s))))"
proof -
  from cleanup_file_and_vectors_events[OF assms(1,2), of s C] obtain vec blob r l where
    ev: "events_since s (snd (cleanup_file_and_vectors C file_record s))
             = Log INFO # vec @ blob @ [DeleteFileById fid r, Log l]"
    and vec: "\<forall>e. VdbDelete (dict_get file_record ''collection_name'') fid (Inl e) \<in> set vec
               \<longrightarrow> filter is_collection_query vec = []"
    and blob: "if truthy (dict_get file_record ''path'')
             then \<exists>r' l'. blob = [StorageDeleteFile (dict_get file_record ''path'') r', Log l']
             else blob = []"
    by blast
  from assms(3) blob have "VdbDelete (dict_get file_record ''collection_name'') fid (Inl e) \<in> set vec"
    unfolding ev by (auto split: if_splits)
  with vec have "filter is_collection_query vec = []" by blast
  moreover have "filter is_collection_query blob = []" using blob by (auto split: if_splits)
  ultimately have "filter is_collection_query (events_since s (snd (cleanup_file_and_vectors C file_record s))) = []"
    unfolding ev by simp
  moreover have "truthy (dict_get file_record ''path'') \<longrightarrow>
            (\<exists>r. StorageDeleteFile (dict_get file_record ''path'') r
                   \<in> set (events_since s (snd (cleanup_file_and_vectors C file_record s))))"
  proof
    assume "truthy (dict_get file_record ''path'')"
    with blob obtain r' l' where "blob = [StorageDeleteFile (dict_get file_record ''path'') r', Log l']"
      by auto
    then have "StorageDeleteFile (dict_get file_record ''path'') r'
                 \<in> set (events_since s (snd (cleanup_file_and_vectors C file_record s)))"
      unfolding ev by simp
    then show "\<exists>r. StorageDeleteFile (dict_get file_record ''path'') r
                   \<in> set (events_since s (snd (cleanup_file_and_vectors C file_record s)))" ..
  qed
  moreover have "\<exists>r. DeleteFileById fid r
                 \<in> set (events_since s (snd (cleanup_file_and_vectors C file_record s)))"
    unfolding ev by auto
  ultimately show ?thesis by blast
qed

theorem vector_delete_failure_skips_collection_steps_witness:
  "filter is_collection_query (events_since start (snd (cleanup_file_and_vectors
      ((fixed_stores (reading 85 60) [] None) \<lparr>vdb_delete := (\<lambda>c i. raising)\<rparr>)
      (file_dict (file_at ''A'' 1)) start))) = []
   \<and> (\<exists>r. StorageDeleteFile (PStr ''/data/A'') r \<in> set (events_since start (snd (cleanup_file_and_vectors
      ((fixed_stores (reading 85 60) [] None) \<lparr>vdb_delete := (\<lambda>c i. raising)\<rparr>)
      (file_dict (file_at ''A'' 1)) start))))
   \<and> (\<exists>r. DeleteFileById (PStr ''A'') r \<in> set (events_since start (snd (cleanup_file_and_vectors
      ((fixed_stores (reading 85 60) [] None) \<lparr>vdb_delete := (\<lambda>c i. raising)\<rparr>)
      (file_dict (file_at ''A'' 1)) start))))"
proof -
  let ?C = "(fixed_stores (reading 85 60) [] None) \<lparr>vdb_delete := (\<lambda>c i. raising)\<rparr>"
  let ?fr = "file_dict (file_at ''A'' 1)"
  have c: "dict_get ?fr ''collection_name'' = PStr ''file-A''"
    and p: "dict_get ?fr ''path'' = PStr ''/data/A''"
    and i: "file_id (file_at ''A'' 1) = ''A''"
    by (simp_all add: file_dict_def dict_get_def file_at_def)
  have h: "VdbDelete (dict_get ?fr ''collection_name'') (PStr (file_id (file_at ''A'' 1)))
             (Inl (ExternalError ''unavailable''))
           \<in> set (events_since start (snd (cleanup_file_and_vectors ?C ?fr start)))"
    unfolding c i run_vector_delete_raises by simp
  show ?thesis
    using vector_delete_failure_skips_collection_steps
            [where file_record = ?fr and C = ?C and s = start, OF file_dict_keys h]
    unfolding c p i by simp
qed

section \<open>The cleanup pass: properties\<close>

lemma cleanup_loop_events:
  assumes "\<forall>fr \<in> set frs. fr ''id'' \<noteq> None \<and> fr ''filename'' \<noteq> None"
  shows "\<exists>n s' evs. cleanup_loop C frs k s = (Inr n, s') \<and> trace s' = trace s @ evs
           \<and> length (catalog_deletes evs) = length frs
           \<and> n = k + int (length (filter (\<lambda>r. \<not> isl r) (catalog_deletes evs)))"
  using assms
proof (induction frs arbitrary: k s)
  case Nil
  then show ?case by simp
next
  case (Cons fr frs)
  from Cons.prems obtain fid name where
    key: "fr ''id'' = Some fid" "fr ''filename'' = Some name" by auto
  obtain b s1 where run: "cleanup_file_and_vectors C fr s = (b, s1)"
    by (cases "cleanup_file_and_vectors C fr s")
  from cleanup_trace_extends[of C fr s] run obtain e1 where t1: "trace s1 = trace s @ e1"
    by auto
  then have es: "events_since s s1 = e1" by (simp add: events_since_def)
  from cleanup_file_and_vectors_events[OF key, of s C] run es obtain vec blob r l where
    e1: "e1 = Log INFO # vec @ blob @ [DeleteFileById fid r, Log l]"
    and b: "b = (\<not> isl r)"
    and vec: "catalog_deletes vec = []"
    and blob: "if truthy (dict_get fr ''path'')
             then \<exists>r' l'. blob = [StorageDeleteFile (dict_get fr ''path'') r', Log l']
             else blob = []"
    by auto
  have "catalog_deletes blob = []" using blob by (auto split: if_splits)
  with vec have c1: "catalog_deletes e1 = [r]"
    unfolding e1 by (simp add: catalog_deletes_append)
  let ?lv = "if b then INFO else ERROR"
  let ?k' = "if b then k + 1 else k"
  have step: "cleanup_loop C (fr # frs) k s = cleanup_loop C frs ?k' (logging ?lv s1)"
    using run key by (cases b) simp_all
  from Cons.prems have "\<forall>fr \<in> set frs. fr ''id'' \<noteq> None \<and> fr ''filename'' \<noteq> None" by simp
  from Cons.IH[OF this, of ?k' "logging ?lv s1"] obtain n s' evs where
    ih: "cleanup_loop C frs ?k' (logging ?lv s1) = (Inr n, s')"
        "trace s' = trace (logging ?lv s1) @ evs"
        "length (catalog_deletes evs) = length frs"
        "n = ?k' + int (length (filter (\<lambda>r. \<not> isl r) (catalog_deletes evs)))"
    by blast
  let ?all = "e1 @ Log ?lv # evs"
  have tr: "trace s' = trace s @ ?all"
    using ih(2) t1 by (simp add: logging_def)
  have cd: "catalog_deletes ?all = r # catalog_deletes evs"
    using c1 by (simp add: catalog_deletes_append)
  have "length (catalog_deletes ?all) = length (fr # frs)"
    using cd ih(3) by simp
  moreover have "n = k + int (length (filter (\<lambda>r. \<not> isl r) (catalog_deletes ?all)))"
    using cd ih(4) b by (cases b) simp_all
  ultimately have "cleanup_loop C (fr # frs) k s = (Inr n, s') \<and> trace s' = trace s @ ?all
      \<and> length (catalog_deletes ?all) = length (fr # frs)
      \<and> n = k + int (length (filter (\<lambda>r. \<not> isl r) (catalog_deletes ?all)))"
    using step ih(1) tr by simp
  then show ?case by blast
qed

lemma cleanup_cache_memory_events:
  "\<exists>evs. trace (cleanup_cache_memory C s) = trace s @ evs \<and> catalog_deletes evs = []"
  by (simp add: cleanup_cache_memory_def call_def logging_def split: prod.splits sum.splits)

lemma get_oldest_files_events:
  "\<exists>evs. trace (snd (get_oldest_files C n s)) = trace s @ evs \<and> catalog_deletes evs = []"
  by (simp add: get_oldest_files_def call_def logging_def Let_def split: prod.splits sum.splits)

lemma get_oldest_files_keys:
  "\<forall>fr \<in> set (fst (get_oldest_files C n s)). fr ''id'' \<noteq> None \<and> fr ''filename'' \<noteq> None"
  by (auto simp: get_oldest_files_result file_dict_keys split: sum.splits)

text \<open>A measurement that succeeds: \<^verbatim>\<open>psutil.virtual_memory()\<close> returns, with a non-zero total.\<close>

lemma get_memory_usage_ok:
  assumes "\<forall>w. \<exists>vm w'. virtual_memory C w = (Inr vm, w') \<and> vm_total vm \<noteq> 0"
  shows "\<exists>m s1 a. get_memory_usage C s = (Inr m, s1) \<and> trace s1 = trace s @ [VirtualMemory a]"
proof -
  from assms obtain vm w' where "virtual_memory C (world s) = (Inr vm, w')" by blast
  then show ?thesis by (simp add: get_memory_usage_def call_def)
qed

lemma get_cache_usage_ok:
  assumes "\<forall>w. \<exists>vm w'. virtual_memory C w = (Inr vm, w') \<and> vm_total vm \<noteq> 0"
  shows "\<exists>c s1 a. get_cache_usage C s = (Inr c, s1) \<and> trace s1 = trace s @ [VirtualMemory a]"
proof -
  from assms obtain vm w' where "virtual_memory C (world s) = (Inr vm, w')" "vm_total vm \<noteq> 0"
    by blast
  then show ?thesis by (simp add: get_cache_usage_def call_def)
qed

lemma get_memory_usage_trace:
  "get_memory_usage C s = (r, s1) \<Longrightarrow> \<exists>a. trace s1 = trace s @ [VirtualMemory a]"
  by (auto simp: get_memory_usage_def call_def split: prod.splits sum.splits)

lemma get_cache_usage_trace:
  "get_cache_usage C s = (r, s1) \<Longrightarrow> \<exists>a. trace s1 = trace s @ [VirtualMemory a]"
  by (auto simp: get_cache_usage_def call_def split: prod.splits sum.splits if_splits)

text \<open>
  When the measurements succeed the pass returns a report, whatever the stores do; it
  makes one catalog deletion for each selected record and counts those that returned.
\<close>

lemma perform_memory_cleanup_report:
  assumes ok: "\<forall>w. \<exists>vm w'. virtual_memory C w = (Inr vm, w') \<and> vm_total vm \<noteq> 0"
    and m: "get_memory_usage C s = (Inr m, s1)" and c: "get_cache_usage C s1 = (Inr c, s2)"
  shows "\<exists>r s' evs. perform_memory_cleanup C n s = (Inr r, s') \<and> trace s' = trace s @ evs
           \<and> length (catalog_deletes evs) = length (fst (get_oldest_files C n (logging INFO s2)))
           \<and> cleaned_files r = int (length (filter (\<lambda>x. \<not> isl x) (catalog_deletes evs)))"
proof -
  from get_memory_usage_trace[OF m] obtain a1 where t1: "trace s1 = trace s @ [VirtualMemory a1]" by blast
  from get_cache_usage_trace[OF c] obtain a2 where t2: "trace s2 = trace s1 @ [VirtualMemory a2]" by blast
  obtain sel s3 where g: "get_oldest_files C n (logging INFO s2) = (sel, s3)"
    by (cases "get_oldest_files C n (logging INFO s2)")
  from get_oldest_files_events[of C n "logging INFO s2"] g obtain ge where
    t3: "trace s3 = trace (logging INFO s2) @ ge" and ge: "catalog_deletes ge = []" by auto
  have t3': "trace s3 = trace s @ [VirtualMemory a1, VirtualMemory a2, Log INFO] @ ge"
    using t1 t2 t3 by (simp add: logging_def)
  show ?thesis
  proof (cases "sel = []")
    case True
    let ?r = "\<lparr>cleaned_files = 0, memory_before = m, memory_after = m,
              cache_before = c, cache_after = c, freed_memory = 0\<rparr>"
    let ?evs = "[VirtualMemory a1, VirtualMemory a2, Log INFO] @ ge @ [Log WARNING]"
    have res: "perform_memory_cleanup C n s = (Inr ?r, logging WARNING s3)"
      using m c g True by (simp add: perform_memory_cleanup_def)
    have tr: "trace (logging WARNING s3) = trace s @ ?evs"
      using t3' by (simp add: logging_def)
    have cd: "catalog_deletes ?evs = []"
      using ge by (simp add: catalog_deletes_append)
    have "perform_memory_cleanup C n s = (Inr ?r, logging WARNING s3)
          \<and> trace (logging WARNING s3) = trace s @ ?evs
          \<and> length (catalog_deletes ?evs) = length (fst (get_oldest_files C n (logging INFO s2)))
          \<and> cleaned_files ?r = int (length (filter (\<lambda>x. \<not> isl x) (catalog_deletes ?evs)))"
      using res tr True g ge by (simp add: catalog_deletes_append)
    then show ?thesis by blast
  next
    case False
    from get_oldest_files_keys[of C n "logging INFO s2"] g
    have keys: "\<forall>fr \<in> set sel. fr ''id'' \<noteq> None \<and> fr ''filename'' \<noteq> None" by simp
    from cleanup_loop_events[OF keys, of C 0 s3] obtain k s4 le where
      l: "cleanup_loop C sel 0 s3 = (Inr k, s4)" and t4: "trace s4 = trace s3 @ le"
      and ld: "length (catalog_deletes le) = length sel"
      and k: "k = int (length (filter (\<lambda>r. \<not> isl r) (catalog_deletes le)))"
      by auto
    from cleanup_cache_memory_events[of C s4] obtain ce where
      t5: "trace (cleanup_cache_memory C s4) = trace s4 @ ce" and ce: "catalog_deletes ce = []"
      by blast
    let ?s5 = "sleep 2 (cleanup_cache_memory C s4)"
    from get_memory_usage_ok[OF ok, of ?s5] obtain m' s6 a3 where
      m': "get_memory_usage C ?s5 = (Inr m', s6)" and t6: "trace s6 = trace ?s5 @ [VirtualMemory a3]"
      by blast
    from get_cache_usage_ok[OF ok, of s6] obtain c' s7 a4 where
      c': "get_cache_usage C s6 = (Inr c', s7)" and t7: "trace s7 = trace s6 @ [VirtualMemory a4]"
      by blast
    let ?s' = "logging INFO (logging INFO (logging INFO s7))"
    let ?r = "\<lparr>cleaned_files = k, memory_before = m, memory_after = m',
              cache_before = c, cache_after = c', freed_memory = fsub m m'\<rparr>"
    have res: "perform_memory_cleanup C n s = (Inr ?r, ?s')"
      using m c g False l m' c' by (simp add: perform_memory_cleanup_def)
    let ?evs = "([VirtualMemory a1, VirtualMemory a2, Log INFO] @ ge) @ le @ ce
              @ [Sleep 2, VirtualMemory a3, VirtualMemory a4, Log INFO, Log INFO, Log INFO]"
    have tr: "trace ?s' = trace s @ ?evs"
      using t3' t4 t5 t6 t7 by (simp add: logging_def sleep_def)
    have cd: "catalog_deletes ?evs = catalog_deletes le"
      using ge ce by (simp add: catalog_deletes_append)
    have "perform_memory_cleanup C n s = (Inr ?r, ?s')
          \<and> trace ?s' = trace s @ ?evs
          \<and> length (catalog_deletes ?evs) = length (fst (get_oldest_files C n (logging INFO s2)))
          \<and> cleaned_files ?r = int (length (filter (\<lambda>x. \<not> isl x) (catalog_deletes ?evs)))"
      using res tr ld k g ge ce by (simp add: catalog_deletes_append)
    then show ?thesis by blast
  qed
qed


section \<open>Pressure readings and the entry point: properties\<close>

lemmas double_eval =
  double_def binade_def round_half_even_def pow2_def fsub_def fmul_def fdiv_def bit_length.simps

lemma round_half_even_nonneg: "0 \<le> y \<Longrightarrow> 0 \<le> round_half_even y"
  by (auto simp: round_half_even_def Let_def)

lemma pow2_pos: "0 < pow2 e"
  by (simp add: pow2_def)

lemma double_nonneg: "0 \<le> x \<Longrightarrow> 0 \<le> double x"
  using pow2_pos [of "binade x - 52"]
  by (auto simp: double_def Let_def intro!: mult_nonneg_nonneg round_half_even_nonneg)

lemma round_half_even_le: "y \<le> of_int N \<Longrightarrow> round_half_even y \<le> N"
proof -
  assume a: "y \<le> of_int N"
  then have f: "\<lfloor>y\<rfloor> \<le> N" by (simp add: floor_le_iff)
  show ?thesis
  proof (cases "\<lfloor>y\<rfloor> = N")
    case True
    then have "y - of_int \<lfloor>y\<rfloor> \<le> 0" using a by simp
    then show ?thesis using True by (simp add: round_half_even_def Let_def)
  next
    case False
    with f have "\<lfloor>y\<rfloor> + 1 \<le> N" by simp
    then show ?thesis using f by (simp add: round_half_even_def Let_def)
  qed
qed

lemma binade_le_0: "0 < x \<Longrightarrow> x \<le> 1 \<Longrightarrow> binade x \<le> 0"
  by (cases "x = 1") (simp_all add: binade_def bit_length.simps)

lemma double_le_one:
  assumes "0 \<le> x" and "x \<le> 1"
  shows "double x \<le> 1"
proof (cases "x = 0")
  case True
  then show ?thesis by (simp add: double_def)
next
  case False
  with assms have pos: "0 < x" by simp
  define k where "k = nat (52 - binade x)"
  have e: "binade x - 52 < 0" using binade_le_0[OF pos assms(2)] by simp
  then have u: "pow2 (binade x - 52) = 1 / 2 ^ k"
    by (simp add: pow2_def k_def)
  have "x / (1 / 2 ^ k) \<le> of_int (2 ^ k)" using assms(2) by (simp add: mult_left_le_one_le)
  then have "round_half_even (x / (1 / 2 ^ k)) \<le> 2 ^ k" by (rule round_half_even_le)
  then have "real_of_int (round_half_even (x / (1 / 2 ^ k))) \<le> 2 ^ k"
    by (metis of_int_le_iff of_int_numeral of_int_power)
  then have "real_of_int (round_half_even (x / (1 / 2 ^ k))) * (1 / 2 ^ k) \<le> 1"
    by (simp add: field_simps)
  then show ?thesis using False u by (simp add: double_def Let_def)
qed

lemma py_int_pos: "0 \<le> x \<Longrightarrow> py_int x = \<lfloor>x\<rfloor>"
  by (simp add: py_int_def)

lemma fixed_memory_usage:
  "get_memory_usage (fixed_stores (reading p k) files remaining) s
     = (Inr (fmul (fdiv p 100) 100),
        \<lparr>world = (), trace = trace s @ [VirtualMemory (Inr (reading p k))]\<rparr>)"
  by (simp add: get_memory_usage_def call_def fixed_stores_def reading_def)

lemma fixed_cache_usage:
  "get_cache_usage (fixed_stores (reading p k) files remaining) s
     = (Inr (fdiv (real k) 100),
        \<lparr>world = (), trace = trace s @ [VirtualMemory (Inr (reading p k))]\<rparr>)"
  by (simp add: get_cache_usage_def call_def fixed_stores_def reading_def)

text \<open>The cache reading is a fraction whenever cache and buffers fit in the total.\<close>

lemma get_cache_usage_fraction:
  assumes "virtual_memory C (world s) = (Inr vm, w)" and "vm_total vm \<noteq> 0"
    and "vm_cached vm + vm_buffers vm \<le> vm_total vm"
  shows "\<exists>c. fst (get_cache_usage C s) = Inr c \<and> 0 \<le> c \<and> c \<le> 1"
proof -
  let ?q = "real (vm_cached vm + vm_buffers vm) / real (vm_total vm)"
  have "0 \<le> ?q" "?q \<le> 1" using assms(2,3) by simp_all
  then have "0 \<le> double ?q \<and> double ?q \<le> 1" by (simp add: double_nonneg double_le_one)
  then show ?thesis using assms(1,2) by (simp add: get_cache_usage_def call_def fdiv_def)
qed

lemma catalog_delete_is_delete_call:
  "catalog_deletes evs \<noteq> [] \<Longrightarrow> filter is_delete_call evs \<noteq> []"
proof (induction evs)
  case Nil
  then show ?case by simp
next
  case (Cons ev evs)
  then show ?case by (cases ev) auto
qed

lemma fixed_measurement_ok:
  "\<forall>w. \<exists>vm w'. virtual_memory (fixed_stores (reading p k) files remaining) w = (Inr vm, w')
                 \<and> vm_total vm \<noteq> 0"
  by (simp add: fixed_stores_def reading_def)

lemma fixed_oldest_length:
  "0 \<le> n \<Longrightarrow> length (fst (get_oldest_files (fixed_stores vm files remaining) n s))
                 = min (nat n) (length files)"
  by (auto simp: get_oldest_files_result fixed_stores_def py_slice_to_def Let_def min_def)


lemma check_and_cleanup_memory_triggered:
  assumes "get_memory_usage C s = (Inr m, s1)" and "get_cache_usage C s1 = (Inr c, s2)"
    and "m > memory_threshold self \<or> c > memory_threshold self"
  shows "check_and_cleanup_memory self C s =
           (case perform_memory_cleanup C
                   (max 1 \<lfloor>fmul (max (fsub m (memory_threshold self))
                                      (fsub c (memory_threshold self))) 20\<rfloor>)
                   (logging WARNING (logging DEBUG s2)) of
              (Inl e, s3) \<Rightarrow> (Inl e, s3)
            | (Inr report, s3) \<Rightarrow> (Inr (Some report), s3))"
proof -
  let ?x = "max (fsub m (memory_threshold self)) (fsub c (memory_threshold self))"
  have "0 \<le> ?x"
    using assms(3) double_nonneg [of "m - memory_threshold self"]
          double_nonneg [of "c - memory_threshold self"]
    by (auto simp: fsub_def max_def)
  then have "0 \<le> fmul ?x 20" by (simp add: fmul_def double_nonneg)
  then have "py_int (fmul ?x 20) = \<lfloor>fmul ?x 20\<rfloor>" by (rule py_int_pos)
  then show ?thesis using assms by (simp add: check_and_cleanup_memory_def Let_def)
qed


text \<open>The pass started by the entry point, on the fixed collaborators.\<close>

lemma fixed_check_triggered:
  assumes "fmul (fdiv p 100) 100 > memory_threshold self"
    and n: "n = max 1 \<lfloor>fmul (max (fsub (fmul (fdiv p 100) 100) (memory_threshold self))
                               (fsub (fdiv (real k) 100) (memory_threshold self))) 20\<rfloor>"
  shows "check_and_cleanup_memory self (fixed_stores (reading p k) files remaining) start =
           (case perform_memory_cleanup (fixed_stores (reading p k) files remaining) n
                   (logging WARNING (logging DEBUG
                      \<lparr>world = (), trace = [VirtualMemory (Inr (reading p k)),
                                             VirtualMemory (Inr (reading p k))]\<rparr>)) of
              (Inl e, s3) \<Rightarrow> (Inl e, s3)
            | (Inr report, s3) \<Rightarrow> (Inr (Some report), s3))"
  using check_and_cleanup_memory_triggered
          [OF fixed_memory_usage [of p k files remaining start] fixed_cache_usage, of self] assms
  by (simp add: start_def)

lemma fixed_pass_deletes:
  assumes "0 \<le> n"
  shows "\<exists>r s' evs. perform_memory_cleanup (fixed_stores (reading p k) files remaining) n s = (Inr r, s')
           \<and> trace s' = trace s @ evs \<and> length (catalog_deletes evs) = min (nat n) (length files)"
proof -
  let ?C = "fixed_stores (reading p k) files remaining"
  from perform_memory_cleanup_report
         [where C = ?C and s = s and n = n, OF fixed_measurement_ok fixed_memory_usage fixed_cache_usage]
  obtain r s' evs s2 where
    "perform_memory_cleanup ?C n s = (Inr r, s')" "trace s' = trace s @ evs"
    "length (catalog_deletes evs) = length (fst (get_oldest_files ?C n (logging INFO s2)))"
    by blast
  then show ?thesis using fixed_oldest_length [OF assms, of "reading p k" files remaining] by metis
qed

lemma snd_wrap_report:
  "snd (case x of (Inl e, s3) \<Rightarrow> (Inl e, s3) | (Inr report, s3) \<Rightarrow> (Inr (Some report), s3)) = snd x"
  by (cases x) (auto split: sum.splits)

lemma fst_wrap_report:
  "fst x = Inr r \<Longrightarrow>
   fst (case x of (Inl e, s3) \<Rightarrow> (Inl e, s3) | (Inr report, s3) \<Rightarrow> (Inr (Some report), s3)) = Inr (Some r)"
  by (cases x) auto

text \<open>
  Claim C1. The claim asks for both readings to lie between 0.0 and 1.0. The cache reading
  is a fraction (lemma \<open>get_cache_usage_fraction\<close>), but \<^verbatim>\<open>get_memory_usage\<close> multiplies the fraction by 100 again and
  returns the percentage: on a system whose memory is half used (\<^verbatim>\<open>percent = 50.0\<close>) it
  returns 50, not 0.5.
\<close>

theorem get_memory_usage_exceeds_one:
  "fst (get_memory_usage (fixed_stores (reading 50 10) [] None) start) = Inr 50
   \<and> \<not> (50::real) \<le> 1
   \<and> fst (get_cache_usage (fixed_stores (reading 50 10) [] None) start) = Inr (double (1 / 10))"
  by (simp add: fixed_memory_usage fixed_cache_usage double_eval Let_def)

text \<open>
  Claim C3. The claim computes the victim count from the memory fraction: with memory at
  85 percent of the total, cache at 60 percent and the threshold 0.70, the excess is 0.15
  and the count is 3, so that of five files A to E the three oldest go. The code takes the
  excess of the percentage over the threshold instead: \<^verbatim>\<open>get_memory_usage\<close> returns 85,
  the count passed to the pass is 1686, and all five files are deleted from the catalog,
  where the count 3 deletes three.
\<close>

theorem cleanup_count_from_percentage:
  "fst (get_memory_usage (fixed_stores (reading 85 60) five_files None) start) = Inr 85
   \<and> check_and_cleanup_memory \<lparr>memory_threshold = double (70 / 100)\<rparr>
        (fixed_stores (reading 85 60) five_files None) start
      = (case perform_memory_cleanup (fixed_stores (reading 85 60) five_files None) 1686
                (logging WARNING (logging DEBUG
                   \<lparr>world = (), trace = [VirtualMemory (Inr (reading 85 60)),
                                          VirtualMemory (Inr (reading 85 60))]\<rparr>)) of
           (Inl e, s3) \<Rightarrow> (Inl e, s3)
         | (Inr report, s3) \<Rightarrow> (Inr (Some report), s3))
   \<and> max 1 \<lfloor>fmul (max (fsub (double (85 / 100)) (double (70 / 100)))
                        (fsub (double (60 / 100)) (double (70 / 100)))) 20\<rfloor> = 3
   \<and> length (catalog_deletes (events_since start (snd
        (check_and_cleanup_memory \<lparr>memory_threshold = double (70 / 100)\<rparr>
           (fixed_stores (reading 85 60) five_files None) start)))) = 5
   \<and> length (catalog_deletes (events_since start (snd
        (perform_memory_cleanup (fixed_stores (reading 85 60) five_files None) 3 start)))) = 3"
proof -
  let ?C = "fixed_stores (reading 85 60) five_files None"
  let ?self = "\<lparr>memory_threshold = double (70 / 100)\<rparr>"
  let ?S = "logging WARNING (logging DEBUG
                   \<lparr>world = (), trace = [VirtualMemory (Inr (reading 85 60)),
                                          VirtualMemory (Inr (reading 85 60))]\<rparr>)"
  have m: "fst (get_memory_usage ?C start) = Inr 85"
    by (simp add: fixed_memory_usage double_eval Let_def)
  have run: "check_and_cleanup_memory ?self ?C start =
      (case perform_memory_cleanup ?C 1686 ?S of
           (Inl e, s3) \<Rightarrow> (Inl e, s3)
         | (Inr report, s3) \<Rightarrow> (Inr (Some report), s3))"
    by (rule fixed_check_triggered) (simp_all add: double_eval Let_def)
  have claimed: "max 1 \<lfloor>fmul (max (fsub (double (85 / 100)) (double (70 / 100)))
                        (fsub (double (60 / 100)) (double (70 / 100)))) 20\<rfloor> = 3"
    by (simp add: double_eval Let_def)
  from fixed_pass_deletes [of 1686 85 60 five_files None ?S] obtain r s' evs where
    p: "perform_memory_cleanup ?C 1686 ?S = (Inr r, s')" "trace s' = trace ?S @ evs"
       "length (catalog_deletes evs) = min (nat 1686) (length five_files)"
    by auto
  have "events_since start s' = [VirtualMemory (Inr (reading 85 60)),
          VirtualMemory (Inr (reading 85 60)), Log DEBUG, Log WARNING] @ evs"
    using p(2) by (simp add: events_since_def start_def logging_def)
  then have "length (catalog_deletes (events_since start s')) = 5"
    using p(3) by (simp add: five_files_def)
  then have all5: "length (catalog_deletes (events_since start (snd
        (check_and_cleanup_memory ?self ?C start)))) = 5"
    unfolding run snd_wrap_report p(1) by simp
  from fixed_pass_deletes [of 3 85 60 five_files None start] obtain r3 s3 evs3 where
    q: "perform_memory_cleanup ?C 3 start = (Inr r3, s3)" "trace s3 = trace start @ evs3"
       "length (catalog_deletes evs3) = min (nat 3) (length five_files)"
    by auto
  have "events_since start s3 = evs3" using q(2) by (simp add: events_since_def)
  then have three: "length (catalog_deletes (events_since start (snd
        (perform_memory_cleanup ?C 3 start)))) = 3"
    using q(1,3) by (simp add: five_files_def)
  from m run claimed all5 three show ?thesis by blast
qed

text \<open>
  Claim C4. The claim has the entry point do nothing while the memory fraction does not
  exceed the threshold, the boundary included. With memory at exactly 70 percent of the
  total, cache at 60 percent and the threshold 0.70, \<^verbatim>\<open>get_memory_usage\<close> returns 70,
  which is greater than 0.70: the code starts a cleanup pass, returns its report and
  deletes all five files from the catalog, so delete calls are issued.
\<close>

theorem cleanup_starts_at_threshold:
  "fst (get_memory_usage (fixed_stores (reading 70 60) five_files None) start) = Inr 70
   \<and> (\<exists>report. fst (check_and_cleanup_memory \<lparr>memory_threshold = double (70 / 100)\<rparr>
                       (fixed_stores (reading 70 60) five_files None) start) = Inr (Some report))
   \<and> length (catalog_deletes (events_since start (snd
        (check_and_cleanup_memory \<lparr>memory_threshold = double (70 / 100)\<rparr>
           (fixed_stores (reading 70 60) five_files None) start)))) = 5
   \<and> filter is_delete_call (events_since start (snd
        (check_and_cleanup_memory \<lparr>memory_threshold = double (70 / 100)\<rparr>
           (fixed_stores (reading 70 60) five_files None) start))) \<noteq> []"
proof -
  let ?C = "fixed_stores (reading 70 60) five_files None"
  let ?self = "\<lparr>memory_threshold = double (70 / 100)\<rparr>"
  let ?S = "logging WARNING (logging DEBUG
                   \<lparr>world = (), trace = [VirtualMemory (Inr (reading 70 60)),
                                          VirtualMemory (Inr (reading 70 60))]\<rparr>)"
  have m: "fst (get_memory_usage ?C start) = Inr 70"
    by (simp add: fixed_memory_usage double_eval Let_def)
  have run: "check_and_cleanup_memory ?self ?C start =
      (case perform_memory_cleanup ?C 1386 ?S of
           (Inl e, s3) \<Rightarrow> (Inl e, s3)
         | (Inr report, s3) \<Rightarrow> (Inr (Some report), s3))"
    by (rule fixed_check_triggered) (simp_all add: double_eval Let_def)
  from fixed_pass_deletes [of 1386 70 60 five_files None ?S] obtain r s' evs where
    p: "perform_memory_cleanup ?C 1386 ?S = (Inr r, s')" "trace s' = trace ?S @ evs"
       "length (catalog_deletes evs) = min (nat 1386) (length five_files)"
    by auto
  have rep: "fst (check_and_cleanup_memory ?self ?C start) = Inr (Some r)"
    unfolding run using p(1) by (simp add: fst_wrap_report)
  have "events_since start s' = [VirtualMemory (Inr (reading 70 60)),
          VirtualMemory (Inr (reading 70 60)), Log DEBUG, Log WARNING] @ evs"
    using p(2) by (simp add: events_since_def start_def logging_def)
  then have "length (catalog_deletes (events_since start s')) = 5"
    using p(3) by (simp add: five_files_def)
  then have all5: "length (catalog_deletes (events_since start (snd
        (check_and_cleanup_memory ?self ?C start)))) = 5"
    unfolding run snd_wrap_report p(1) by simp
  from all5 have "catalog_deletes (events_since start (snd
        (check_and_cleanup_memory ?self ?C start))) \<noteq> []"
    by auto
  then have calls: "filter is_delete_call (events_since start (snd
        (check_and_cleanup_memory ?self ?C start))) \<noteq> []"
    by (rule catalog_delete_is_delete_call)
  from m rep all5 calls show ?thesis by blast
qed




section \<open>The sampling loop: properties\<close>

text \<open>
  One pass either publishes a sample and sleeps 30 seconds, with no failed measurement,
  or leaves the monitor as it was, logs at error level and sleeps 60 seconds.
  (\<^verbatim>\<open>time.sleep\<close> and the log calls are taken not to raise.)
\<close>

lemma monitor_cycle_cases:
  "(\<exists>pre. monitoring (fst (monitor_cycle E (self, s))) = monitoring self
       \<and> events_since s (snd (monitor_cycle E (self, s))) = pre @ [Sleep 30]
       \<and> (\<forall>ev \<in> set (pre @ [Sleep 30]). \<not> failed_measurement ev))
   \<or> (\<exists>pre. fst (monitor_cycle E (self, s)) = self
       \<and> events_since s (snd (monitor_cycle E (self, s))) = pre @ [Log ERROR, Sleep 60]
       \<and> Sleep 30 \<notin> set pre)"
  by (simp add: monitor_cycle_def monitor_except_def call_def logging_def sleep_def
        events_since_def Let_def split: prod.splits sum.splits)

text \<open>
  Claim C8. For every pass of the sampling loop in which a measurement call raised, the
  monitor object is left as it was (the \<^verbatim>\<open>stats\<close> snapshot is unchanged and the
  \<^verbatim>\<open>monitoring\<close> flag still set), the pass ends with a log line at error level followed
  by a sleep of 60 seconds, it never sleeps 30 seconds, and the loop goes on to its next
  pass.
\<close>

theorem failed_cycle_keeps_sampling:
  assumes "\<exists>ev \<in> set (events_since s (snd (monitor_cycle E (self, s)))). failed_measurement ev"
  shows "fst (monitor_cycle E (self, s)) = self
       \<and> (\<exists>pre. events_since s (snd (monitor_cycle E (self, s))) = pre @ [Log ERROR, Sleep 60]
                 \<and> Sleep 30 \<notin> set pre)
       \<and> (monitoring self \<longrightarrow>
             monitor_loop (Suc (Suc n)) E (self, s)
               = monitor_loop n E (monitor_cycle E (monitor_cycle E (self, s))))"
proof -
  from monitor_cycle_cases [of E self s] assms
  have f: "\<exists>pre. fst (monitor_cycle E (self, s)) = self
       \<and> events_since s (snd (monitor_cycle E (self, s))) = pre @ [Log ERROR, Sleep 60]
       \<and> Sleep 30 \<notin> set pre"
    by auto
  then have same: "fst (monitor_cycle E (self, s)) = self" by blast
  have "monitoring self \<longrightarrow>
             monitor_loop (Suc (Suc n)) E (self, s)
               = monitor_loop n E (monitor_cycle E (monitor_cycle E (self, s)))"
    using same by simp
  with f show ?thesis by blast
qed

theorem failed_cycle_keeps_sampling_witness:
  "fst (monitor_cycle ((fixed_sampler 1048576 3) \<lparr>memory_info_rss := (\<lambda>p. raising)\<rparr>)
          (\<lparr>monitoring = True, stats = Map.empty\<rparr>, start))
     = \<lparr>monitoring = True, stats = Map.empty\<rparr>
   \<and> events_since start (snd (monitor_cycle
          ((fixed_sampler 1048576 3) \<lparr>memory_info_rss := (\<lambda>p. raising)\<rparr>)
          (\<lparr>monitoring = True, stats = Map.empty\<rparr>, start)))
     = [ProcessNew (Inr 1), MemoryInfo 1 (Inl (ExternalError ''unavailable'')), Log ERROR, Sleep 60]
   \<and> monitor_loop 2 ((fixed_sampler 1048576 3) \<lparr>memory_info_rss := (\<lambda>p. raising)\<rparr>)
          (\<lparr>monitoring = True, stats = Map.empty\<rparr>, start)
     = monitor_cycle ((fixed_sampler 1048576 3) \<lparr>memory_info_rss := (\<lambda>p. raising)\<rparr>)
         (monitor_cycle ((fixed_sampler 1048576 3) \<lparr>memory_info_rss := (\<lambda>p. raising)\<rparr>)
            (\<lparr>monitoring = True, stats = Map.empty\<rparr>, start))"
proof -
  let ?E = "(fixed_sampler 1048576 3) \<lparr>memory_info_rss := (\<lambda>p. raising)\<rparr>"
  let ?self = "\<lparr>monitoring = True, stats = Map.empty\<rparr>"
  have ev: "events_since start (snd (monitor_cycle ?E (?self, start)))
     = [ProcessNew (Inr 1), MemoryInfo 1 (Inl (ExternalError ''unavailable'')), Log ERROR, Sleep 60]"
    by (simp add: monitor_cycle_def monitor_except_def call_def logging_def sleep_def
          events_since_def fixed_sampler_def raising_def start_def)
  have h: "\<exists>ev \<in> set (events_since start (snd (monitor_cycle ?E (?self, start)))).
             failed_measurement ev"
    unfolding ev by simp
  from failed_cycle_keeps_sampling [OF h, of 0] ev show ?thesis
    by (simp add: numeral_2_eq_2)
qed


end
